theory Spec2Isabelle
  imports Main "HOL-Library.Sublist"
begin

section \<open>Text layout: \<open>wrap_text\<close>\<close>

text \<open>
  Python strings are modelled as \<^typ>\<open>string\<close>, one \<^typ>\<open>char\<close> standing for one
  character of the Python string. The measurer \<open>d.get_total_width\<close> belongs to the display
  library and is a parameter \<open>get_total_width\<close> of the model; pixel widths are Python ints.
\<close>

text \<open>
  \<open>str.split(sep)\<close> for a one-character separator: the pieces between the separators,
  empty pieces included, so the result is never the empty list. \<open>split_on\<close> takes the set
  of separators as a predicate.
\<close>

fun split_on :: "(char \<Rightarrow> bool) \<Rightarrow> string \<Rightarrow> string list" where
  "split_on P [] = [[]]"
| "split_on P (c # cs) =
     (if P c then [] # split_on P cs
      else (case split_on P cs of [] \<Rightarrow> [[c]] | w # ws \<Rightarrow> (c # w) # ws))"

definition split_space :: "string \<Rightarrow> string list" where
  "split_space text = split_on (\<lambda>c. c = CHR '' '') text"

text \<open>
  \<open>str.strip()\<close> removes whitespace at both ends. The whitespace characters are the ones of
  MicroPython, the interpreter of the device: codes 9 to 13 and the space.
\<close>

definition isspace :: "char \<Rightarrow> bool" where
  "isspace c = (c \<in> {CHR 0x09, CHR 0x0A, CHR 0x0B, CHR 0x0C, CHR 0x0D, CHR '' ''})"

definition strip :: "string \<Rightarrow> string" where
  "strip s = rev (dropWhile isspace (rev (dropWhile isspace s)))"

text \<open>
  The inner loop of \<open>wrap_text\<close> over the characters of a word that is wider than the line
  (source lines 100 to 106): \<open>lines\<close> and \<open>temp_word_part\<close> are threaded through.
\<close>

fun split_long ::
  "(string \<Rightarrow> int) \<Rightarrow> int \<Rightarrow> string \<Rightarrow> string list \<Rightarrow> string \<Rightarrow> string list \<times> string" where
  "split_long get_total_width width [] lines temp_word_part = (lines, temp_word_part)"
| "split_long get_total_width width (c # cs) lines temp_word_part =
     (if get_total_width (temp_word_part @ [c]) \<le> width
      then split_long get_total_width width cs lines (temp_word_part @ [c])
      else split_long get_total_width width cs
             (if temp_word_part \<noteq> [] then lines @ [temp_word_part] else lines) [c])"

text \<open>The loop over the words (source lines 95 to 115), on \<open>lines\<close> and \<open>current_line\<close>.\<close>

fun wrap_loop ::
  "(string \<Rightarrow> int) \<Rightarrow> int \<Rightarrow> string list \<Rightarrow> string list \<Rightarrow> string \<Rightarrow> string list \<times> string" where
  "wrap_loop get_total_width width [] lines current_line = (lines, current_line)"
| "wrap_loop get_total_width width (word # rest) lines current_line =
     (if get_total_width word > width then
        (case split_long get_total_width width word lines [] of
           (lines1, temp_word_part) \<Rightarrow>
             wrap_loop get_total_width width rest
               (if temp_word_part \<noteq> [] then lines1 @ [temp_word_part] else lines1) [])
      else if get_total_width (current_line @ (if current_line \<noteq> [] then '' '' else []) @ word) \<le> width
      then wrap_loop get_total_width width rest lines
             (current_line @ (if current_line \<noteq> [] then '' '' else []) @ word)
      else wrap_loop get_total_width width rest
             (if current_line \<noteq> [] then lines @ [strip current_line] else lines) word)"

definition wrap_text :: "(string \<Rightarrow> int) \<Rightarrow> string \<Rightarrow> int \<Rightarrow> string list" where
  "wrap_text get_total_width text width =
     (case wrap_loop get_total_width width (split_space text) [] [] of
        (lines, current_line) \<Rightarrow>
          (if current_line \<noteq> [] then lines @ [strip current_line] else lines))"

section \<open>Token sequences, as the specification words them\<close>

text \<open>
  Joining lines with single spaces (\<open>' '.join(lines)\<close>), and the whitespace-split token
  sequence of a text (\<open>str.split()\<close> without argument: the non-empty pieces between
  whitespace characters). Both serve only to state properties of \<open>wrap_text\<close>.
\<close>

fun join_space :: "string list \<Rightarrow> string" where
  "join_space [] = []"
| "join_space [l] = l"
| "join_space (l # ls) = l @ '' '' @ join_space ls"

definition ws_tokens :: "string \<Rightarrow> string list" where
  "ws_tokens s = filter (\<lambda>w. w \<noteq> []) (split_on isspace s)"

text \<open>
  Two shorthands for the statements below: a line fits the width or is a single character
  that alone is wider; and the separator that \<open>wrap_text\<close> puts before a word.
\<close>

abbreviation line_ok :: "(string \<Rightarrow> int) \<Rightarrow> int \<Rightarrow> string \<Rightarrow> bool" where
  "line_ok m width l \<equiv> m l \<le> width \<or> (length l = 1 \<and> width < m l)"

abbreviation sep :: "string \<Rightarrow> string" where
  "sep current_line \<equiv> (if current_line \<noteq> [] then '' '' else [])"

section \<open>Conversation entries and the system prompt\<close>

text \<open>
  An entry of \<open>conversation\<close> is the dict \<open>{"role": r, "parts": [{"text": t}]}\<close> with
  \<open>r\<close> one of \<open>"user"\<close> and \<open>"model"\<close>. Equality of entries is equality of these dicts.
\<close>

datatype role = User | Model

record entry =
  role :: role
  part_text :: string

definition MAX_CONVERSATION_HISTORY :: nat where
  "MAX_CONVERSATION_HISTORY = 5"

definition SYSTEM_PROMPT :: entry where
  "SYSTEM_PROMPT = \<lparr>role = User, part_text =
     ''You are a helpful and friendly assistant designed for children aged 10-12, running on very small device M5 CardPuter. Use simple language and explain things clearly. Answer in one short sentense.''\<rparr>"

text \<open>The placeholder \<open>bot_response_entry\<close> for the reply of the model (source line 161).\<close>

definition bot_response_entry :: entry where
  "bot_response_entry = \<lparr>role = Model, part_text = []\<rparr>"

section \<open>Python values read from JSON, and the operations the program applies to them\<close>

text \<open>
  The result of \<open>json.loads\<close>. A dict is an association list read by \<open>map_of\<close>; a JSON
  number is an int or a float in Python, and every operation this program applies to a
  number raises \<open>TypeError\<close> whatever its value.
\<close>

datatype json =
  JNull | JBool bool | JNum int | JStr string | JArr "json list" | JObj "(string \<times> json) list"

datatype exn =
  JSONDecodeError | KeyError | IndexError | TypeError | UnicodeError | RequestException string

definition bindE :: "exn + 'a \<Rightarrow> ('a \<Rightarrow> exn + 'b) \<Rightarrow> exn + 'b" where
  "bindE r f = (case r of Inl e \<Rightarrow> Inl e | Inr v \<Rightarrow> f v)"

fun is_substring :: "string \<Rightarrow> string \<Rightarrow> bool" where
  "is_substring k [] = (k = [])"
| "is_substring k (c # cs) = (prefix k (c # cs) \<or> is_substring k cs)"

text \<open>\<open>key in x\<close>: a key of a dict, an element of a list, a substring of a str.\<close>

fun py_contains :: "string \<Rightarrow> json \<Rightarrow> exn + bool" where
  "py_contains k (JObj kvs) = Inr (k \<in> set (map fst kvs))"
| "py_contains k (JArr xs) = Inr (JStr k \<in> set xs)"
| "py_contains k (JStr s) = Inr (is_substring k s)"
| "py_contains k _ = Inl TypeError"

text \<open>\<open>x[key]\<close> for a str key: only a dict can be indexed by a str.\<close>

fun py_getitem :: "json \<Rightarrow> string \<Rightarrow> exn + json" where
  "py_getitem (JObj kvs) k = (case map_of kvs k of None \<Rightarrow> Inl KeyError | Some v \<Rightarrow> Inr v)"
| "py_getitem _ k = Inl TypeError"

text \<open>
  \<open>x[0]\<close>: the first element of a list, the first character of a str; the keys of a dict
  read from JSON are strs, so \<open>0\<close> is never one of them.
\<close>

fun py_index0 :: "json \<Rightarrow> exn + json" where
  "py_index0 (JArr []) = Inl IndexError"
| "py_index0 (JArr (x # xs)) = Inr x"
| "py_index0 (JStr []) = Inl IndexError"
| "py_index0 (JStr (c # cs)) = Inr (JStr [c])"
| "py_index0 (JObj kvs) = Inl KeyError"
| "py_index0 _ = Inl TypeError"

fun py_len :: "json \<Rightarrow> exn + nat" where
  "py_len (JArr xs) = Inr (length xs)"
| "py_len (JStr s) = Inr (length s)"
| "py_len (JObj kvs) = Inr (length (remdups (map fst kvs)))"
| "py_len _ = Inl TypeError"

text \<open>
  The test of source lines 215 to 219 and the read of line 221. The result is \<open>None\<close> when
  the test is false, the value of \<open>data['candidates'][0]['content']['parts'][0]['text']\<close>
  when it is true, and an exception when one of the operations raises; \<open>and\<close> evaluates its
  right operand only when the left one is true.
\<close>

definition extract_text :: "json \<Rightarrow> exn + json option" where
  "extract_text data =
     bindE (py_contains ''candidates'' data) (\<lambda>c1. if \<not> c1 then Inr None else
     bindE (py_getitem data ''candidates'') (\<lambda>candidates.
     bindE (py_len candidates) (\<lambda>n. if \<not> n > 0 then Inr None else
     bindE (py_index0 candidates) (\<lambda>candidate.
     bindE (py_contains ''content'' candidate) (\<lambda>c3. if \<not> c3 then Inr None else
     bindE (py_getitem candidate ''content'') (\<lambda>content.
     bindE (py_contains ''parts'' content) (\<lambda>c4. if \<not> c4 then Inr None else
     bindE (py_getitem content ''parts'') (\<lambda>parts.
     bindE (py_len parts) (\<lambda>n. if \<not> n > 0 then Inr None else
     bindE (py_index0 parts) (\<lambda>part.
     bindE (py_contains ''text'' part) (\<lambda>c6. if \<not> c6 then Inr None else
     bindE (py_getitem part ''text'') (\<lambda>full_text_response.
     Inr (Some full_text_response)))))))))))))"

section \<open>The transport\<close>

text \<open>
  \<open>requests.post\<close> raises, or returns a response with a status code and a content. The
  content is bytes; the program only decodes it and parses it, so it is given by what these
  two steps make of it: bytes that are not UTF-8, a text that \<open>json.loads\<close> rejects, or a
  text and the value \<open>json.loads\<close> returns for it.
\<close>

datatype content = Undecodable | NotJson string | Json string json

record response =
  status_code :: int
  content :: content

datatype post_result = Raises string | Returns response

text \<open>\<open>r.content.decode('utf-8')\<close> and \<open>json.loads(r.content.decode('utf-8'))\<close>.\<close>

fun decode :: "content \<Rightarrow> exn + string" where
  "decode Undecodable = Inl UnicodeError"
| "decode (NotJson s) = Inr s"
| "decode (Json s v) = Inr s"

fun loads_decode :: "content \<Rightarrow> exn + json" where
  "loads_decode Undecodable = Inl UnicodeError"
| "loads_decode (NotJson s) = Inl JSONDecodeError"
| "loads_decode (Json s v) = Inr v"

text \<open>\<open>str(n)\<close> for an int, as the f-string of source line 197 formats the status code.\<close>

function str_nat :: "nat \<Rightarrow> string" where
  "str_nat n = (if n < 10 then [''0123456789'' ! n]
                else str_nat (n div 10) @ [''0123456789'' ! (n mod 10)])"
  by pat_completeness auto
termination
  by (relation "measure (\<lambda>n. n)") auto

declare str_nat.simps [simp del]

definition str_int :: "int \<Rightarrow> string" where
  "str_int i = (if i < 0 then CHR ''-'' # str_nat (nat (- i)) else str_nat (nat i))"

section \<open>The state of the program and what it shows\<close>

text \<open>
  What the program does to the outside is recorded as a list of events, oldest first:
  \<^item> \<open>Error m\<close>: \<open>ov.error(m)\<close>, three seconds of sleep, \<open>ov.close()\<close>;
  \<^item> \<open>Draw c\<close>: a call of \<open>draw_ui()\<close> when the conversation is \<open>c\<close>;
  \<^item> \<open>Post p\<close>: \<open>requests.post\<close> with \<open>p\<close> as the \<open>contents\<close> of the payload;
  \<^item> \<open>Beep\<close>: \<open>b.play\<close>;
  \<^item> \<open>TextEntry\<close>: \<open>ov.text_entry("")\<close> is opened.

  A message is a string, or \<open>RequestFail e\<close> for the f-string \<open>f"Request Fail: {e}"\<close>, in
  which the interpreter formats the exception \<open>e\<close>. The progress text that
  \<open>connect_wifi\<close> writes on the display and the \<open>print\<close> calls are not recorded.
\<close>

datatype message = Msg string | RequestFail exn

datatype event = Error message | Draw "entry list" | Post "entry list" | Beep | TextEntry

text \<open>
  \<open>polls\<close> counts the calls of \<open>isconnected()\<close> so far: the network interface is a
  function \<open>nic\<close> from the number of the call to its answer.
\<close>

record state =
  conversation :: "entry list"
  events :: "event list"
  polls :: nat
  should_prompt_next :: bool

record config =
  wifi_ssid :: string
  wifi_pass :: string
  gemini_api_key :: string

definition emit :: "event \<Rightarrow> state \<Rightarrow> state" where
  "emit e st = st\<lparr>events := events st @ [e]\<rparr>"

section \<open>\<open>connect_wifi\<close>\<close>

text \<open>The \<open>while\<close> loop of source lines 68 to 73; the result is the number of polls made.\<close>

function connect_loop :: "(nat \<Rightarrow> bool) \<Rightarrow> nat \<Rightarrow> nat \<Rightarrow> nat" where
  "connect_loop nic p retries =
     (if \<not> nic p \<and> retries < 20 then connect_loop nic (Suc p) (retries + 1) else Suc p)"
  by pat_completeness auto
termination
  by (relation "measure (\<lambda>(nic, p, retries). 20 - retries)") auto

declare connect_loop.simps [simp del]

definition connect_wifi :: "config \<Rightarrow> (nat \<Rightarrow> bool) \<Rightarrow> state \<Rightarrow> bool \<times> state" where
  "connect_wifi cfg nic st =
     (if wifi_ssid cfg = [] \<or> wifi_pass cfg = []
      then (False, emit (Error (Msg ''No WiFi credentials!'')) st)
      else if nic (polls st) then (True, st\<lparr>polls := Suc (polls st)\<rparr>)
      else (let p = connect_loop nic (Suc (polls st)) 0 in
            if nic p then (True, st\<lparr>polls := Suc p\<rparr>)
            else (False, emit (Error (Msg ''WiFi connection failed!'')) (st\<lparr>polls := Suc p\<rparr>))))"

section \<open>\<open>draw_ui\<close>\<close>

text \<open>
  The calls to the display, in order. A colour is an index of \<open>d.palette\<close>. \<open>W\<close> and \<open>H\<close>
  are the width and the height of the display.
\<close>

datatype draw_op =
  Rect int int int int nat | Text string int int nat | Line int int int int nat | Show

text \<open>
  The inner loop (source lines 140 to 143) over the lines of one entry, last line first:
  the calls made and the value of \<open>y\<close> when the loop is left.
\<close>

fun draw_lines :: "string list \<Rightarrow> int \<Rightarrow> nat \<Rightarrow> draw_op list \<times> int" where
  "draw_lines [] y color = ([], y)"
| "draw_lines (line # rest) y color =
     (if y - 10 < 14 then ([], y - 10)
      else (case draw_lines rest (y - 10) color of
              (ops, y') \<Rightarrow> (Text line 2 (y - 10) color # ops, y')))"

text \<open>
  The outer loop (source lines 131 to 144) over the entries, newest first. Every entry has
  the key \<open>'text'\<close> in \<open>entry['parts'][0]\<close>, so the test of source line 138 is true.
\<close>

fun draw_entries :: "(string \<Rightarrow> int) \<Rightarrow> int \<Rightarrow> entry list \<Rightarrow> int \<Rightarrow> draw_op list" where
  "draw_entries get_total_width W [] y = []"
| "draw_entries get_total_width W (e # es) y =
     (let color = (if role e = User then 10 else 13);
          prefix = (if role e = User then ''You: '' else ''Bot: '');
          lines = wrap_text get_total_width (prefix @ part_text e) (W - 4)
      in case draw_lines (rev lines) y color of
           (ops, y') \<Rightarrow> (if y' < 14 then ops else ops @ draw_entries get_total_width W es y'))"

definition draw_history :: "(string \<Rightarrow> int) \<Rightarrow> int \<Rightarrow> int \<Rightarrow> entry list \<Rightarrow> draw_op list" where
  "draw_history get_total_width W H conv =
     (let y = H - 4;
          display_conversation = filter (\<lambda>e. e \<noteq> SYSTEM_PROMPT) conv
      in draw_entries get_total_width W (rev display_conversation) y)"

definition draw_ui :: "(string \<Rightarrow> int) \<Rightarrow> int \<Rightarrow> int \<Rightarrow> entry list \<Rightarrow> draw_op list" where
  "draw_ui get_total_width W H conv =
     [Rect 0 0 W H 2, Text ''Model: Flash-Lite'' 2 2 9, Line 0 12 W 12 8]
     @ draw_history get_total_width W H conv @ [Show]"

section \<open>\<open>call_gemini_api\<close>\<close>

text \<open>
  The network check of source lines 151 to 157: whether the request goes on, and the state
  after the check.
\<close>

definition network_check :: "config \<Rightarrow> (nat \<Rightarrow> bool) \<Rightarrow> state \<Rightarrow> bool \<times> state" where
  "network_check cfg nic st =
     (if \<not> nic (polls st) then
        (case connect_wifi cfg nic (st\<lparr>polls := Suc (polls st)\<rparr>) of
           (connected, st1) \<Rightarrow>
             (if \<not> connected then (False, emit (Error (Msg ''API: No network!'')) st1)
              else (True, st1)))
      else (True, st\<lparr>polls := Suc (polls st)\<rparr>))"

text \<open>
  \<open>payload_contents\<close> of source lines 165 to 172, from the conversation at that moment.
  \<open>max(0, n - 10)\<close> is written on ints, as in the source.
\<close>

definition payload_contents :: "entry list \<Rightarrow> entry list" where
  "payload_contents conv =
     (let actual_conversation_for_history = filter (\<lambda>e. e \<noteq> SYSTEM_PROMPT) conv;
          start_index = nat (max 0 (int (length actual_conversation_for_history)
                                      - int (MAX_CONVERSATION_HISTORY * 2)))
      in [SYSTEM_PROMPT] @ drop start_index actual_conversation_for_history)"

text \<open>\<open>conversation.pop()\<close> under the test \<open>if conversation\<close>.\<close>

definition pop :: "state \<Rightarrow> state" where
  "pop st = (if conversation st \<noteq> [] then st\<lparr>conversation := butlast (conversation st)\<rparr> else st)"

text \<open>The error message of source lines 197 to 202.\<close>

definition http_error_message :: "response \<Rightarrow> string" where
  "http_error_message r =
     ''HTTP Error: '' @ str_int (status_code r) @
     (case decode (content r) of
        Inr err_content \<Rightarrow> (if err_content \<noteq> [] then '' - '' @ take 50 err_content else [])
      | Inl e \<Rightarrow> [])"

text \<open>
  The body of the inner \<open>try\<close> (source lines 213 to 229), with \<open>i\<close> the index of
  \<open>bot_response_entry\<close> in the conversation. An exception comes with the state reached
  when it is raised. When the text read from the response is not a str, it is assigned
  and the sound is played, then \<open>draw_ui\<close> raises \<open>TypeError\<close> at \<open>prefix + text\<close> for
  this entry, the newest, before any line of the history is drawn; the handler of source
  line 238 then removes the entry, so the assignment is not part of the model.
\<close>

definition process_response :: "response \<Rightarrow> nat \<Rightarrow> state \<Rightarrow> (exn \<times> state) + state" where
  "process_response r i st =
     (case loads_decode (content r) of
        Inl e \<Rightarrow> Inl (e, st)
      | Inr data \<Rightarrow>
          (case extract_text data of
             Inl e \<Rightarrow> Inl (e, st)
           | Inr None \<Rightarrow> Inr (emit (Error (Msg ''Bad API Response'')) st)
           | Inr (Some full_text_response) \<Rightarrow>
               (case full_text_response of
                  JStr s \<Rightarrow>
                    (let st1 = st\<lparr>conversation :=
                                 (conversation st)[i := (conversation st ! i)\<lparr>part_text := s\<rparr>]\<rparr>;
                         st2 = emit Beep st1
                     in Inr (emit (Draw (conversation st2)) st2))
                | _ \<Rightarrow> Inl (TypeError, emit Beep st))))"

text \<open>The inner \<open>try\<close> with its handler (source lines 212 to 234).\<close>

definition parse_response :: "response \<Rightarrow> nat \<Rightarrow> state \<Rightarrow> (exn \<times> state) + state" where
  "parse_response r i st =
     (case process_response r i st of
        Inr st1 \<Rightarrow> Inr st1
      | Inl (e, st1) \<Rightarrow>
          (if e = JSONDecodeError \<or> e = KeyError \<or> e = IndexError
           then Inr (emit (Error (Msg ''JSON Parse Error'')) st1)
           else Inl (e, st1)))"

text \<open>
  The outer \<open>try\<close> with its handler (source lines 192 to 243), from the state in which
  \<open>bot_response_entry\<close> has been appended at index \<open>i\<close>.
\<close>

definition send_request ::
  "(entry list \<Rightarrow> post_result) \<Rightarrow> entry list \<Rightarrow> nat \<Rightarrow> state \<Rightarrow> state" where
  "send_request post payload i st =
     (let st1 = emit (Post payload) st;
          outcome =
            (case post payload of
               Raises description \<Rightarrow> Inl (RequestException description, st1)
             | Returns r \<Rightarrow>
                 (if status_code r \<noteq> 200
                  then (let st2 = emit (Error (Msg (http_error_message r))) st1
                        in Inr (st2\<lparr>conversation := butlast (conversation st2)\<rparr>))
                  else parse_response r i st1))
      in case outcome of
           Inr st3 \<Rightarrow> st3
         | Inl (e, st3) \<Rightarrow> pop (emit (Error (RequestFail e)) st3))"

definition call_gemini_api ::
  "config \<Rightarrow> (nat \<Rightarrow> bool) \<Rightarrow> (entry list \<Rightarrow> post_result) \<Rightarrow> state \<Rightarrow> state" where
  "call_gemini_api cfg nic post st =
     (case network_check cfg nic st of
        (False, st1) \<Rightarrow> st1
      | (True, st1) \<Rightarrow>
          (let payload = payload_contents (conversation st1);
               i = length (conversation st1);
               st2 = st1\<lparr>conversation := conversation st1 @ [bot_response_entry]\<rparr>
           in send_request post payload i st2))"

section \<open>\<open>main\<close>\<close>

text \<open>
  \<open>main\<close> leaves (\<open>Exit\<close>: a \<open>return\<close> or \<open>SystemExit\<close>) or goes on (\<open>Continue\<close>).
\<close>

datatype outcome = Exit state | Continue state

definition initial_state :: state where
  "initial_state = \<lparr>conversation = [], events = [], polls = 0, should_prompt_next = False\<rparr>"

text \<open>The start of \<open>main\<close> (source lines 247 to 265).\<close>

definition main_start :: "config \<Rightarrow> (nat \<Rightarrow> bool) \<Rightarrow> outcome" where
  "main_start cfg nic =
     (if gemini_api_key cfg = []
      then Exit (emit (Error (Msg ''Set gemini_api_key in config!'')) initial_state)
      else (case connect_wifi cfg nic initial_state of
              (connected, st) \<Rightarrow>
                Continue ((emit (Draw (conversation st)) st)\<lparr>should_prompt_next := True\<rparr>)))"

text \<open>
  The first part of an iteration of the loop (source lines 268 to 285); \<open>current_prompt\<close> is
  what \<open>ov.text_entry\<close> returns if it is opened, \<open>None\<close> when the user leaves it with ESC.
\<close>

definition prompt_step ::
  "config \<Rightarrow> (nat \<Rightarrow> bool) \<Rightarrow> (entry list \<Rightarrow> post_result) \<Rightarrow> string option \<Rightarrow> state \<Rightarrow> state" where
  "prompt_step cfg nic post current_prompt st =
     (if should_prompt_next st then
        (let st1 = (emit TextEntry st)\<lparr>should_prompt_next := False\<rparr>
         in case current_prompt of
              None \<Rightarrow> st1
            | Some p \<Rightarrow>
                (if p \<noteq> [] then
                   (let st2 = st1\<lparr>conversation :=
                                conversation st1 @ [\<lparr>role = User, part_text = p\<rparr>]\<rparr>;
                        st3 = emit (Draw (conversation st2)) st2;
                        st4 = call_gemini_api cfg nic post st3
                    in st4\<lparr>should_prompt_next := True\<rparr>)
                 else st1\<lparr>should_prompt_next := True\<rparr>))
      else st)"

text \<open>The second part (source lines 288 to 296), over the keys of \<open>kb.get_new_keys()\<close>.\<close>

fun poll_keys :: "string list \<Rightarrow> state \<Rightarrow> outcome" where
  "poll_keys [] st = Continue st"
| "poll_keys (k # ks) st =
     (if k = ''ESC'' then Exit st
      else if k = ''ENT'' \<and> \<not> should_prompt_next st
      then poll_keys ks (st\<lparr>should_prompt_next := True\<rparr>)
      else poll_keys ks st)"

definition main_iteration ::
  "config \<Rightarrow> (nat \<Rightarrow> bool) \<Rightarrow> (entry list \<Rightarrow> post_result) \<Rightarrow> string option \<Rightarrow> string list \<Rightarrow>
   state \<Rightarrow> outcome" where
  "main_iteration cfg nic post current_prompt keys st =
     poll_keys keys (prompt_step cfg nic post current_prompt st)"


section \<open>Properties of \<open>wrap_text\<close>\<close>

lemma split_on_not_Nil: "split_on P s \<noteq> []"
  by (induction s) (auto split: list.splits)

lemma split_on_append_sep:
  "P c \<Longrightarrow> split_on P (a @ c # b) = split_on P a @ split_on P b"
proof (induction a)
  case Nil
  then show ?case by simp
next
  case (Cons x a)
  then show ?case
    using split_on_not_Nil [of P a] by (cases "split_on P a") auto
qed

lemma ws_tokens_append_sep:
  "isspace c \<Longrightarrow> ws_tokens (a @ c # b) = ws_tokens a @ ws_tokens b"
  by (simp add: ws_tokens_def split_on_append_sep)

lemma ws_tokens_Nil: "ws_tokens [] = []"
  by (simp add: ws_tokens_def)

lemma ws_tokens_Cons_space: "isspace c \<Longrightarrow> ws_tokens (c # s) = ws_tokens s"
  by (simp add: ws_tokens_def)

lemma ws_tokens_snoc_space: "isspace c \<Longrightarrow> ws_tokens (s @ [c]) = ws_tokens s"
  using ws_tokens_append_sep [of c s "[]"] by (simp add: ws_tokens_Nil)

lemma ws_tokens_dropWhile: "ws_tokens (dropWhile isspace s) = ws_tokens s"
  by (induction s) (simp_all add: ws_tokens_Cons_space)

lemma ws_tokens_drop_trailing:
  "ws_tokens (rev (dropWhile isspace (rev s))) = ws_tokens s"
  by (induction s rule: rev_induct) (simp_all add: ws_tokens_snoc_space)

lemma ws_tokens_strip: "ws_tokens (strip s) = ws_tokens s"
  by (simp add: strip_def ws_tokens_drop_trailing ws_tokens_dropWhile)

lemma isspace_space: "isspace (CHR '' '')"
  by (simp add: isspace_def)

lemma ws_tokens_join_space: "ws_tokens (join_space ls) = concat (map ws_tokens ls)"
proof (induction ls rule: join_space.induct)
  case (3 l v va)
  then show ?case
    using ws_tokens_append_sep [OF isspace_space, of l "join_space (v # va)"] by simp
qed (simp_all add: ws_tokens_Nil)

lemma join_space_split_on: "join_space (split_on (\<lambda>c. c = CHR '' '') s) = s"
proof (induction s)
  case Nil
  then show ?case by simp
next
  case (Cons c s)
  show ?case
  proof (cases "c = CHR '' ''")
    case True
    then show ?thesis
      using Cons split_on_not_Nil [of "\<lambda>c. c = CHR '' ''" s]
      by (cases "split_on (\<lambda>c. c = CHR '' '') s") auto
  next
    case False
    then show ?thesis
      using Cons split_on_not_Nil [of "\<lambda>c. c = CHR '' ''" s]
      by (cases "split_on (\<lambda>c. c = CHR '' '') s"; cases "tl (split_on (\<lambda>c. c = CHR '' '') s)") auto
  qed
qed

lemma join_space_split_space: "join_space (split_space s) = s"
  by (simp add: split_space_def join_space_split_on)

lemma ws_tokens_words: "concat (map ws_tokens (split_space s)) = ws_tokens s"
  using ws_tokens_join_space [of "split_space s"] by (simp add: join_space_split_space)

lemma wrap_loop_tokens:
  "\<forall>w \<in> set ws. \<not> m w > width \<Longrightarrow> wrap_loop m width ws lines cur = (lines', cur') \<Longrightarrow>
   concat (map ws_tokens lines') @ ws_tokens cur' =
   concat (map ws_tokens lines) @ ws_tokens cur @ concat (map ws_tokens ws)"
proof (induction ws arbitrary: lines cur)
  case Nil
  then show ?case by simp
next
  case (Cons w ws)
  have nw: "\<not> m w > width" and rest: "\<forall>w \<in> set ws. \<not> m w > width"
    using Cons.prems(1) by simp_all
  show ?case
  proof (cases "m (cur @ (if cur \<noteq> [] then '' '' else []) @ w) \<le> width")
    case True
    then have "wrap_loop m width ws lines (cur @ (if cur \<noteq> [] then '' '' else []) @ w) = (lines', cur')"
      using Cons.prems(2) nw by simp
    from Cons.IH [OF rest this] show ?thesis
      using ws_tokens_append_sep [OF isspace_space, of cur w]
      by (cases "cur = []") (simp_all add: ws_tokens_Nil)
  next
    case False
    then have "wrap_loop m width ws (if cur \<noteq> [] then lines @ [strip cur] else lines) w = (lines', cur')"
      using Cons.prems(2) nw by simp
    from Cons.IH [OF rest this] show ?thesis
      by (cases "cur = []") (simp_all add: ws_tokens_Nil ws_tokens_strip)
  qed
qed

text \<open>
  Claim C3. For every text, width limit and measurer: when no word of the text (a piece of
  \<open>text.split(' ')\<close>) is wider than the limit, so that no word is split into characters,
  the lines of \<open>wrap_text\<close> joined with single spaces have the whitespace-split token
  sequence of the text: no word is dropped, duplicated or reordered.
\<close>

theorem wrap_text_tokens:
  assumes "\<forall>w \<in> set (split_space text_str). \<not> m w > width"
  shows "ws_tokens (join_space (wrap_text m text_str width)) = ws_tokens text_str"
proof -
  obtain lines cur where r: "wrap_loop m width (split_space text_str) [] [] = (lines, cur)"
    by (cases "wrap_loop m width (split_space text_str) [] []")
  from wrap_loop_tokens [OF assms r]
  have "concat (map ws_tokens lines) @ ws_tokens cur = ws_tokens text_str"
    by (simp add: ws_tokens_Nil ws_tokens_words)
  then show ?thesis
    using r by (cases "cur = []") (simp_all add: wrap_text_def ws_tokens_join_space ws_tokens_strip ws_tokens_Nil)
qed

theorem wrap_text_tokens_witness:
  "wrap_text (\<lambda>s. 8 * int (length s)) ''You: hello there my friend how are you today'' 236 =
     [''You: hello there my friend'', ''how are you today''] \<and>
   ws_tokens (join_space (wrap_text (\<lambda>s. 8 * int (length s)) ''You: hello there my friend how are you today'' 236)) =
   ws_tokens ''You: hello there my friend how are you today''"
proof -
  have h: "\<forall>w \<in> set (split_space ''You: hello there my friend how are you today''). \<not> 8 * int (length w) > 236"
    by (simp add: split_space_def)
  have e: "wrap_text (\<lambda>s. 8 * int (length s)) ''You: hello there my friend how are you today'' 236 =
     [''You: hello there my friend'', ''how are you today'']"
    by (simp add: wrap_text_def split_space_def strip_def isspace_def)
  show ?thesis
    using h e wrap_text_tokens [where text_str = "''You: hello there my friend how are you today''"
      and m = "\<lambda>s. 8 * int (length s)" and width = 236]
    by blast
qed

text \<open>
  Where a word is wider than the limit, it is split into pieces and the current line is
  reset (source line 108): the words accumulated on that line before the long word are in
  no line. Here the long word is a URL of 36 characters, at 8 pixels a character and the
  width \<open>W - 4 = 236\<close> of the device.
\<close>

lemma wrap_text_drops_current_line:
  "wrap_text (\<lambda>s. 8 * int (length s))
     ''Bot: see https://example.com/a/very/long/path now'' 236 =
     [''https://example.com/a/very/lo'', ''ng/path'', ''now''] \<and>
   ws_tokens ''Bot: see https://example.com/a/very/long/path now'' =
     [''Bot:'', ''see'', ''https://example.com/a/very/long/path'', ''now'']"
  by (simp add: wrap_text_def split_space_def strip_def isspace_def ws_tokens_def)

lemma split_long_inv:
  assumes Q1: "\<And>s. s \<noteq> [] \<Longrightarrow> m s \<le> width \<Longrightarrow> Q s" and Q2: "\<And>c. Q [c]"
  shows "split_long m width cs lines part = (lines', part') \<Longrightarrow>
   (\<forall>l \<in> set lines. Q l) \<Longrightarrow> (part = [] \<or> Q part) \<Longrightarrow>
   (\<forall>l \<in> set lines'. Q l) \<and> (part' = [] \<or> Q part')"
proof (induction cs arbitrary: lines part)
  case Nil
  then show ?case by simp
next
  case (Cons c cs)
  show ?case
  proof (cases "m (part @ [c]) \<le> width")
    case True
    then have r: "split_long m width cs lines (part @ [c]) = (lines', part')"
      using Cons.prems(1) by simp
    have q: "part @ [c] = [] \<or> Q (part @ [c])" using True by (simp add: Q1)
    show ?thesis by (rule Cons.IH [OF r Cons.prems(2) q])
  next
    case False
    then have r: "split_long m width cs (if part \<noteq> [] then lines @ [part] else lines) [c] = (lines', part')"
      using Cons.prems(1) by simp
    have l: "\<forall>l \<in> set (if part \<noteq> [] then lines @ [part] else lines). Q l"
      using Cons.prems(2,3) by (cases "part = []") simp_all
    have q: "[c] = [] \<or> Q [c]" by (blast intro: Q2)
    show ?thesis by (rule Cons.IH [OF r l q])
  qed
qed

lemma split_long_concat:
  "split_long m width cs lines part = (lines', part') \<Longrightarrow>
   concat lines' @ part' = concat lines @ part @ cs"
proof (induction cs arbitrary: lines part)
  case Nil
  then show ?case by simp
next
  case (Cons c cs)
  show ?case
  proof (cases "m (part @ [c]) \<le> width")
    case True
    then have "split_long m width cs lines (part @ [c]) = (lines', part')"
      using Cons.prems by simp
    from Cons.IH [OF this] show ?thesis by simp
  next
    case False
    then have "split_long m width cs (if part \<noteq> [] then lines @ [part] else lines) [c] = (lines', part')"
      using Cons.prems by simp
    from Cons.IH [OF this] show ?thesis by (cases "part = []") simp_all
  qed
qed

lemma dropWhile_hd: "xs \<noteq> [] \<Longrightarrow> \<not> P (hd xs) \<Longrightarrow> dropWhile P xs = xs"
  by (cases xs) simp_all

lemma length_strip: "length (strip s) \<le> length s"
proof -
  have "length (strip s) = length (dropWhile isspace (rev (dropWhile isspace s)))"
    by (simp add: strip_def)
  also have "\<dots> \<le> length (rev (dropWhile isspace s))" by (rule length_dropWhile_le)
  also have "\<dots> = length (dropWhile isspace s)" by simp
  also have "\<dots> \<le> length s" by (rule length_dropWhile_le)
  finally show ?thesis .
qed

lemma strip_Nil: "strip [] = []"
  by (simp add: strip_def)

lemma dropWhile_Nil_iff: "dropWhile P xs = [] \<longleftrightarrow> (\<forall>x \<in> set xs. P x)"
  by (induction xs) simp_all

lemma strip_eq_Nil: "strip s = [] \<longleftrightarrow> (\<forall>c \<in> set s. isspace c)"
proof
  assume "strip s = []"
  then have "dropWhile isspace (rev (dropWhile isspace s)) = []"
    by (simp add: strip_def)
  then have a: "\<forall>c \<in> set (dropWhile isspace s). isspace c"
    by (simp only: dropWhile_Nil_iff set_rev)
  have "dropWhile isspace s = []"
  proof (rule ccontr)
    assume n: "dropWhile isspace s \<noteq> []"
    then have "\<not> isspace (hd (dropWhile isspace s))" by (rule hd_dropWhile)
    moreover have "hd (dropWhile isspace s) \<in> set (dropWhile isspace s)"
      using n by (rule hd_in_set)
    ultimately show False using a by blast
  qed
  then show "\<forall>c \<in> set s. isspace c" by (simp only: dropWhile_Nil_iff)
next
  assume "\<forall>c \<in> set s. isspace c"
  then have "dropWhile isspace s = []" by (simp only: dropWhile_Nil_iff)
  then show "strip s = []" by (simp only: strip_def rev.simps dropWhile.simps)
qed

lemma strip_snoc_space: "isspace c \<Longrightarrow> strip (s @ [c]) = strip s"
proof (cases "\<forall>x \<in> set s. isspace x")
  case True
  assume "isspace c"
  with True have "strip (s @ [c]) = []" "strip s = []" by (simp_all add: strip_eq_Nil)
  then show ?thesis by simp
next
  case False
  assume c: "isspace c"
  from False obtain x where "x \<in> set s" "\<not> isspace x" by blast
  then have "dropWhile isspace (s @ [c]) = dropWhile isspace s @ [c]"
    by (rule dropWhile_append1)
  then show ?thesis using c by (simp add: strip_def)
qed

lemma strip_id: "s \<noteq> [] \<Longrightarrow> \<not> isspace (hd s) \<Longrightarrow> \<not> isspace (last s) \<Longrightarrow> strip s = s"
proof -
  assume a: "s \<noteq> []" "\<not> isspace (hd s)" "\<not> isspace (last s)"
  have 1: "dropWhile isspace s = s" using a(1,2) by (rule dropWhile_hd)
  have "rev s \<noteq> []" using a(1) by simp
  moreover have "\<not> isspace (hd (rev s))" using a(1,3) by (simp add: hd_rev)
  ultimately have 2: "dropWhile isspace (rev s) = rev s" by (rule dropWhile_hd)
  show ?thesis by (simp add: strip_def 1 2)
qed

lemma subseq_strip: "subseq (strip s) s"
proof -
  define E where "E = dropWhile isspace s"
  define D where "D = dropWhile isspace (rev E)"
  have "suffix D (rev E)" unfolding D_def by (rule suffix_dropWhile)
  then obtain zs where "rev E = zs @ D" by (auto simp: suffix_def)
  then have "rev (rev E) = rev (zs @ D)" by simp
  then have "E = rev D @ rev zs" by simp
  moreover have "prefix (rev D) (rev D @ rev zs)" by simp
  ultimately have "prefix (rev D) E" by simp
  then have "subseq (rev D) E" by (rule prefix_imp_subseq)
  moreover have "subseq E s"
    unfolding E_def by (rule suffix_imp_subseq [OF suffix_dropWhile])
  ultimately have "subseq (rev D) s" by (rule subseq_order.order_trans)
  then show ?thesis by (simp add: strip_def D_def E_def)
qed

lemma wrap_loop_inv:
  assumes Q1: "\<And>s. s \<noteq> [] \<Longrightarrow> m s \<le> width \<Longrightarrow> Q s" and Q2: "\<And>c. Q [c]"
    and ext: "\<And>cur w. w \<in> W \<Longrightarrow> R cur \<Longrightarrow> \<not> width < m w \<Longrightarrow>
                m (cur @ sep cur @ w) \<le> width \<Longrightarrow> R (cur @ sep cur @ w)"
    and new: "\<And>w. w \<in> W \<Longrightarrow> \<not> width < m w \<Longrightarrow> R w"
    and R0: "R []"
    and flush: "\<And>cur. R cur \<Longrightarrow> cur \<noteq> [] \<Longrightarrow> Q (strip cur)"
  shows "set ws \<subseteq> W \<Longrightarrow> wrap_loop m width ws lines cur = (lines', cur') \<Longrightarrow>
    (\<forall>l \<in> set lines. Q l) \<Longrightarrow> R cur \<Longrightarrow> (\<forall>l \<in> set lines'. Q l) \<and> R cur'"
proof (induction ws arbitrary: lines cur)
  case Nil
  then show ?case by simp
next
  case (Cons w ws)
  have wW: "w \<in> W" and sub: "set ws \<subseteq> W" using Cons.prems(1) by simp_all
  show ?case
  proof (cases "width < m w")
    case True
    obtain lines1 part where sl: "split_long m width w lines [] = (lines1, part)"
      by (cases "split_long m width w lines []")
    have inv: "(\<forall>l \<in> set lines1. Q l) \<and> (part = [] \<or> Q part)"
      by (rule split_long_inv [where Q = Q, OF Q1 Q2 sl Cons.prems(3)]) simp_all
    have r: "wrap_loop m width ws (if part \<noteq> [] then lines1 @ [part] else lines1) [] = (lines', cur')"
      using Cons.prems(2) True sl by simp
    have l: "\<forall>l \<in> set (if part \<noteq> [] then lines1 @ [part] else lines1). Q l"
      using inv by (cases "part = []") simp_all
    show ?thesis by (rule Cons.IH [OF sub r l R0])
  next
    case nw: False
    show ?thesis
    proof (cases "m (cur @ sep cur @ w) \<le> width")
      case True
      then have r: "wrap_loop m width ws lines (cur @ sep cur @ w) = (lines', cur')"
        using Cons.prems(2) nw by simp
      have "R (cur @ sep cur @ w)" by (rule ext [OF wW Cons.prems(4) nw True])
      then show ?thesis by (rule Cons.IH [OF sub r Cons.prems(3)])
    next
      case False
      then have r: "wrap_loop m width ws (if cur \<noteq> [] then lines @ [strip cur] else lines) w = (lines', cur')"
        using Cons.prems(2) nw by simp
      have l: "\<forall>l \<in> set (if cur \<noteq> [] then lines @ [strip cur] else lines). Q l"
        using Cons.prems(3) flush [OF Cons.prems(4)] by (cases "cur = []") simp_all
      have "R w" by (rule new [OF wW nw])
      then show ?thesis by (rule Cons.IH [OF sub r l])
    qed
  qed
qed

lemma wrap_loop_subseq:
  "wrap_loop m width ws lines cur = (lines', cur') \<Longrightarrow>
   subseq (concat lines' @ cur') (concat lines @ cur @ concat (map ((#) CHR '' '') ws))"
proof (induction ws arbitrary: lines cur)
  case Nil
  then show ?case by simp
next
  case (Cons w ws)
  define rest where "rest = concat (map ((#) CHR '' '') ws)"
  have goal_eq: "concat lines @ cur @ concat (map ((#) CHR '' '') (w # ws)) =
      concat lines @ cur @ CHR '' '' # w @ rest"
    by (simp add: rest_def)
  have drop: "subseq (w @ rest) (cur @ CHR '' '' # w @ rest)"
  proof -
    have "subseq (w @ rest) ((cur @ '' '') @ (w @ rest))" by (rule subseq_drop_many) simp
    then show ?thesis by simp
  qed
  show ?case
  proof (cases "width < m w")
    case True
    obtain lines1 part where sl: "split_long m width w lines [] = (lines1, part)"
      by (cases "split_long m width w lines []")
    have c: "concat lines1 @ part = concat lines @ w"
      using split_long_concat [OF sl] by simp
    have r: "wrap_loop m width ws (if part \<noteq> [] then lines1 @ [part] else lines1) [] = (lines', cur')"
      using Cons.prems True sl by simp
    have c2: "concat (if part \<noteq> [] then lines1 @ [part] else lines1) = concat lines @ w"
      using c by (cases "part = []") simp_all
    have "subseq (concat lines' @ cur') (concat lines @ w @ rest)"
      using Cons.IH [OF r] by (simp add: c2 rest_def)
    moreover have "subseq (concat lines @ w @ rest) (concat lines @ cur @ CHR '' '' # w @ rest)"
      using drop by (simp only: subseq_append')
    ultimately show ?thesis
      unfolding goal_eq by (rule subseq_order.order_trans)
  next
    case nw: False
    show ?thesis
    proof (cases "m (cur @ sep cur @ w) \<le> width")
      case True
      then have r: "wrap_loop m width ws lines (cur @ sep cur @ w) = (lines', cur')"
        using Cons.prems nw by simp
      have 1: "subseq (concat lines' @ cur') (concat lines @ (cur @ sep cur @ w) @ rest)"
        using Cons.IH [OF r] by (simp only: rest_def)
      have "subseq ((cur @ sep cur @ w) @ rest) (cur @ CHR '' '' # w @ rest)"
        using drop by (cases "cur = []") simp_all
      then have "subseq (concat lines @ (cur @ sep cur @ w) @ rest)
          (concat lines @ cur @ CHR '' '' # w @ rest)"
        by (simp only: subseq_append')
      with 1 show ?thesis
        unfolding goal_eq by (rule subseq_order.order_trans)
    next
      case False
      then have r: "wrap_loop m width ws (if cur \<noteq> [] then lines @ [strip cur] else lines) w = (lines', cur')"
        using Cons.prems nw by simp
      have 1: "subseq (concat lines' @ cur')
          (concat (if cur \<noteq> [] then lines @ [strip cur] else lines) @ w @ rest)"
        using Cons.IH [OF r] by (simp only: rest_def)
      have c: "concat (if cur \<noteq> [] then lines @ [strip cur] else lines) = concat lines @ strip cur"
        by (cases "cur = []") (simp_all add: strip_def)
      have "subseq (strip cur @ (w @ rest)) (cur @ ('' '' @ w @ rest))"
        by (rule list_emb_append_mono [OF subseq_strip]) (rule subseq_drop_many, simp)
      then have "subseq (strip cur @ w @ rest) (cur @ CHR '' '' # w @ rest)" by simp
      then have "subseq (concat lines @ strip cur @ w @ rest)
          (concat lines @ cur @ CHR '' '' # w @ rest)"
        by (simp only: subseq_append')
      moreover have "subseq (concat lines' @ cur') (concat lines @ strip cur @ w @ rest)"
        using 1 by (simp only: c append_assoc)
      ultimately show ?thesis
        unfolding goal_eq by (rule subseq_order.order_trans [rotated])
    qed
  qed
qed

lemma split_on_no_sep:
  "w \<in> set (split_on P s) \<Longrightarrow> c \<in> set w \<Longrightarrow> \<not> P c"
proof (induction s arbitrary: w)
  case Nil
  then show ?case by simp
next
  case (Cons x s)
  show ?case
  proof (cases "P x")
    case True
    then show ?thesis using Cons by auto
  next
    case False
    obtain v vs where sp: "split_on P s = v # vs"
      using split_on_not_Nil [of P s] by (cases "split_on P s") auto
    then have "w = x # v \<or> w \<in> set vs" using Cons.prems(1) False by simp
    then show ?thesis
    proof
      assume "w = x # v"
      then have "c = x \<or> c \<in> set v" using Cons.prems(2) by simp
      then show ?thesis using False Cons.IH [of v] sp by auto
    next
      assume "w \<in> set vs"
      then show ?thesis using Cons.IH [of w] Cons.prems(2) sp by simp
    qed
  qed
qed

lemma word_no_space: "w \<in> set (split_space s) \<Longrightarrow> c \<in> set w \<Longrightarrow> c \<noteq> CHR '' ''"
  unfolding split_space_def by (drule split_on_no_sep) simp_all

lemma split_on_chars: "w \<in> set (split_on P s) \<Longrightarrow> set w \<subseteq> set s"
proof (induction s arbitrary: w)
  case Nil
  then show ?case by simp
next
  case (Cons x s)
  obtain v vs where sp: "split_on P s = v # vs"
    using split_on_not_Nil [of P s] by (cases "split_on P s") auto
  show ?case
  proof (cases "P x")
    case True
    then show ?thesis using Cons by auto
  next
    case False
    then have "w = x # v \<or> w \<in> set vs" using Cons.prems sp by simp
    then show ?thesis using Cons.IH [of v] Cons.IH [of w] sp by auto
  qed
qed

lemma word_no_whitespace:
  assumes "\<forall>c \<in> set s. isspace c \<longrightarrow> c = CHR '' ''" and "w \<in> set (split_space s)"
  shows "\<forall>c \<in> set w. \<not> isspace c"
proof
  fix c assume c: "c \<in> set w"
  then have "c \<in> set s" using split_on_chars assms(2) unfolding split_space_def by blast
  moreover have "c \<noteq> CHR '' ''" using word_no_space [OF assms(2) c] .
  ultimately show "\<not> isspace c" using assms(1) by blast
qed

lemma strip_no_whitespace: "\<forall>c \<in> set w. \<not> isspace c \<Longrightarrow> strip w = w"
proof (cases "w = []")
  case True
  then show ?thesis by (simp add: strip_Nil)
next
  case False
  assume "\<forall>c \<in> set w. \<not> isspace c"
  then have "\<not> isspace (hd w)" "\<not> isspace (last w)" using False by simp_all
  with False show ?thesis by (rule strip_id)
qed

lemma line_ok_single: "m [c] \<le> width \<or> (length [c] = 1 \<and> width < m [c])"
  for m :: "string \<Rightarrow> int"
  by (simp add: not_le [symmetric])

lemma wrap_loop_bound_monotone:
  fixes m :: "string \<Rightarrow> int"
  assumes mono: "\<forall>s. m (strip s) \<le> m s"
    and r: "wrap_loop m width ws [] [] = (lines', cur')"
  shows "(\<forall>l \<in> set lines'. line_ok m width l) \<and> (cur' = [] \<or> m cur' \<le> width)"
proof -
  let ?Q = "\<lambda>l. line_ok m width l"
  let ?R = "\<lambda>cur. cur = [] \<or> m cur \<le> width"
  have Q1: "\<And>s. s \<noteq> [] \<Longrightarrow> m s \<le> width \<Longrightarrow> ?Q s" by simp
  have Q2: "\<And>c. ?Q [c]" by (rule line_ok_single)
  have ext: "\<And>cur w. w \<in> UNIV \<Longrightarrow> ?R cur \<Longrightarrow> \<not> width < m w \<Longrightarrow>
      m (cur @ sep cur @ w) \<le> width \<Longrightarrow> ?R (cur @ sep cur @ w)" by simp
  have new: "\<And>w. w \<in> UNIV \<Longrightarrow> \<not> width < m w \<Longrightarrow> ?R w" by simp
  have R0: "?R []" by simp
  have flush: "\<And>cur. ?R cur \<Longrightarrow> cur \<noteq> [] \<Longrightarrow> ?Q (strip cur)"
  proof -
    fix cur assume "?R cur" "cur \<noteq> []"
    then have "m cur \<le> width" by simp
    moreover have "m (strip cur) \<le> m cur" using mono by blast
    ultimately show "?Q (strip cur)" by simp
  qed
  have sub: "set ws \<subseteq> UNIV" by simp
  have l0: "\<forall>l \<in> set ([]::string list). ?Q l" by simp
  show ?thesis
    by (rule wrap_loop_inv [where Q = ?Q and R = ?R and W = UNIV,
          OF Q1 Q2 ext new R0 flush sub r l0 R0])
qed

lemma wrap_loop_bound_spaces:
  fixes m :: "string \<Rightarrow> int"
  assumes ws: "\<forall>w \<in> set ws. \<forall>c \<in> set w. \<not> isspace c"
    and r: "wrap_loop m width ws [] [] = (lines', cur')"
  shows "(\<forall>l \<in> set lines'. line_ok m width l \<and> l \<noteq> []) \<and>
         (cur' = [] \<or> (\<not> isspace (hd cur') \<and> m (strip cur') \<le> width))"
proof -
  let ?W = "{w. \<forall>c \<in> set w. \<not> isspace c}"
  let ?Q = "\<lambda>l. line_ok m width l \<and> l \<noteq> []"
  let ?R = "\<lambda>cur. cur = [] \<or> (\<not> isspace (hd cur) \<and> m (strip cur) \<le> width)"
  have Q1: "\<And>s. s \<noteq> [] \<Longrightarrow> m s \<le> width \<Longrightarrow> ?Q s" by simp
  have Q2: "\<And>c. ?Q [c]" using line_ok_single [of m _ width] by simp
  have new: "\<And>w. w \<in> ?W \<Longrightarrow> \<not> width < m w \<Longrightarrow> ?R w"
  proof -
    fix w assume w: "w \<in> ?W" and nw: "\<not> width < m w"
    then have "strip w = w" by (simp add: strip_no_whitespace)
    then show "?R w" using w nw by (cases w) simp_all
  qed
  have ext: "\<And>cur w. w \<in> ?W \<Longrightarrow> ?R cur \<Longrightarrow> \<not> width < m w \<Longrightarrow>
      m (cur @ sep cur @ w) \<le> width \<Longrightarrow> ?R (cur @ sep cur @ w)"
  proof -
    fix cur w
    assume w: "w \<in> ?W" and R: "?R cur" and nw: "\<not> width < m w"
      and fit: "m (cur @ sep cur @ w) \<le> width"
    show "?R (cur @ sep cur @ w)"
    proof (cases "cur = []")
      case True
      then show ?thesis using new [OF w nw] by simp
    next
      case cur: False
      then have hd: "\<not> isspace (hd cur)" and st: "m (strip cur) \<le> width" using R by simp_all
      show ?thesis
      proof (cases "w = []")
        case True
        have "strip (cur @ [CHR '' '']) = strip cur"
          by (rule strip_snoc_space [OF isspace_space])
        then show ?thesis using True cur hd st by simp
      next
        case False
        let ?s = "cur @ '' '' @ w"
        have "\<not> isspace (last w)" using w False by simp
        then have l: "\<not> isspace (last ?s)" using False by simp
        have h: "\<not> isspace (hd ?s)" using cur hd by simp
        have n: "?s \<noteq> []" using cur by simp
        have "strip ?s = ?s" by (rule strip_id [OF n h l])
        then show ?thesis using fit cur hd by simp
      qed
    qed
  qed
  have R0: "?R []" by simp
  have flush: "\<And>cur. ?R cur \<Longrightarrow> cur \<noteq> [] \<Longrightarrow> ?Q (strip cur)"
  proof -
    fix cur assume R: "?R cur" and cur: "cur \<noteq> []"
    then have "hd cur \<in> set cur" "\<not> isspace (hd cur)" by simp_all
    then have "strip cur \<noteq> []" unfolding strip_eq_Nil by blast
    then show "?Q (strip cur)" using R cur by simp
  qed
  have sub: "set ws \<subseteq> ?W" using ws by blast
  have l0: "\<forall>l \<in> set ([]::string list). ?Q l" by simp
  show ?thesis
    by (rule wrap_loop_inv [where Q = ?Q and R = ?R and W = ?W,
          OF Q1 Q2 ext new R0 flush sub r l0 R0])
qed

lemma join_space_Cons: "join_space (w # ws) = w @ concat (map ((#) CHR '' '') ws)"
  by (induction ws arbitrary: w) simp_all

lemma wrap_text_empty: "wrap_text m [] width = []"
  by (simp add: wrap_text_def split_space_def)

lemma wrap_text_subseq: "subseq (concat (wrap_text m s width)) s"
proof -
  obtain w ws where sp: "split_space s = w # ws"
    using split_on_not_Nil [of "\<lambda>c. c = CHR '' ''" s]
    by (cases "split_space s") (simp_all add: split_space_def)
  obtain lines cur where r: "wrap_loop m width (w # ws) [] [] = (lines, cur)"
    by (cases "wrap_loop m width (w # ws) [] []")
  have s: "s = w @ concat (map ((#) CHR '' '') ws)"
    using join_space_split_space [of s] by (simp only: sp join_space_Cons)
  have 1: "subseq (concat lines @ cur) s"
  proof (cases "width < m w")
    case True
    obtain lines1 part where sl: "split_long m width w [] [] = (lines1, part)"
      by (cases "split_long m width w [] []")
    have c: "concat (if part \<noteq> [] then lines1 @ [part] else lines1) = w"
      using split_long_concat [OF sl] by (cases "part = []") simp_all
    have "wrap_loop m width ws (if part \<noteq> [] then lines1 @ [part] else lines1) [] = (lines, cur)"
      using r True sl by simp
    from wrap_loop_subseq [OF this] show ?thesis by (simp only: c s append_Nil)
  next
    case False
    then have "wrap_loop m width ws [] w = (lines, cur)"
      using r by (simp split: if_splits)
    from wrap_loop_subseq [OF this] show ?thesis by (simp only: s concat.simps append_Nil)
  qed
  have "subseq (concat lines @ strip cur) (concat lines @ cur)"
    using subseq_strip [of cur] by (simp only: subseq_append')
  then have 2: "subseq (concat lines @ strip cur) s"
    using 1 by (rule subseq_order.order_trans)
  show ?thesis
    using 1 2 r by (cases "cur = []") (simp_all add: wrap_text_def sp)
qed

text \<open>
  What holds of the lines, for every text, width and measurer:
  \<^item> if the only whitespace characters of the text are spaces, or if stripping whitespace
    from the ends of a string never makes it wider under the measurer, every line has a
    measured width of at most the limit, or is a single character wider than the limit;
  \<^item> if the only whitespace characters of the text are spaces, no line is empty;
  \<^item> the lines follow the input order: their concatenation is a subsequence of the text;
  \<^item> the empty text gives no line.
\<close>

lemma wrap_text_lines:
  fixes m :: "string \<Rightarrow> int"
  shows
  "((\<forall>c \<in> set text_str. isspace c \<longrightarrow> c = CHR '' '') \<or> (\<forall>s. m (strip s) \<le> m s) \<longrightarrow>
      (\<forall>l \<in> set (wrap_text m text_str width). m l \<le> width \<or> (length l = 1 \<and> width < m l))) \<and>
   ((\<forall>c \<in> set text_str. isspace c \<longrightarrow> c = CHR '' '') \<longrightarrow> [] \<notin> set (wrap_text m text_str width)) \<and>
   subseq (concat (wrap_text m text_str width)) text_str \<and>
   wrap_text m [] width = []"
proof -
  obtain lines cur where r: "wrap_loop m width (split_space text_str) [] [] = (lines, cur)"
    by (cases "wrap_loop m width (split_space text_str) [] []")
  have res: "wrap_text m text_str width = (if cur \<noteq> [] then lines @ [strip cur] else lines)"
    by (simp add: wrap_text_def r)
  have A: "(\<forall>l \<in> set (wrap_text m text_str width). line_ok m width l \<and> l \<noteq> [])"
    if a: "\<forall>c \<in> set text_str. isspace c \<longrightarrow> c = CHR '' ''"
  proof -
    have "\<forall>w \<in> set (split_space text_str). \<forall>c \<in> set w. \<not> isspace c"
      using word_no_whitespace [OF a] by blast
    from wrap_loop_bound_spaces [OF this r]
    have l: "\<forall>l \<in> set lines. line_ok m width l \<and> l \<noteq> []"
      and c: "cur = [] \<or> (\<not> isspace (hd cur) \<and> m (strip cur) \<le> width)" by blast+
    show ?thesis
    proof (cases "cur = []")
      case True
      then show ?thesis using l by (simp add: res)
    next
      case False
      then have "hd cur \<in> set cur" "\<not> isspace (hd cur)" using c by simp_all
      then have "strip cur \<noteq> []" unfolding strip_eq_Nil by blast
      then show ?thesis using False l c by (simp add: res)
    qed
  qed
  have B: "(\<forall>l \<in> set (wrap_text m text_str width). line_ok m width l)"
    if b: "\<forall>s. m (strip s) \<le> m s"
  proof -
    from wrap_loop_bound_monotone [OF b r]
    have l: "\<forall>l \<in> set lines. line_ok m width l" and c: "cur = [] \<or> m cur \<le> width" by blast+
    show ?thesis
    proof (cases "cur = []")
      case True
      then show ?thesis using l by (simp add: res)
    next
      case False
      then have "m cur \<le> width" using c by simp
      moreover have "m (strip cur) \<le> m cur" using b by blast
      ultimately have "m (strip cur) \<le> width" by simp
      then show ?thesis using False l by (simp add: res)
    qed
  qed
  have 1: "(\<forall>c \<in> set text_str. isspace c \<longrightarrow> c = CHR '' '') \<or> (\<forall>s. m (strip s) \<le> m s) \<longrightarrow>
      (\<forall>l \<in> set (wrap_text m text_str width). m l \<le> width \<or> (length l = 1 \<and> width < m l))"
    using A B by blast
  have 2: "(\<forall>c \<in> set text_str. isspace c \<longrightarrow> c = CHR '' '') \<longrightarrow> [] \<notin> set (wrap_text m text_str width)"
    using A by blast
  show ?thesis
    using 1 2 wrap_text_subseq [of m text_str width] wrap_text_empty [of m width] by blast
qed

lemma wrap_text_lines_example:
  "wrap_text (\<lambda>s. 8 * int (length s)) ''Bot: hello there my friend how are you today'' 236 =
     [''Bot: hello there my friend'', ''how are you today''] \<and>
   8 * int (length ''Bot: hello there my friend'') \<le> 236 \<and>
   8 * int (length ''how are you today'') \<le> 236 \<and>
   [] \<notin> set (wrap_text (\<lambda>s. 8 * int (length s)) ''Bot: hello there my friend how are you today'' 236) \<and>
   subseq (concat (wrap_text (\<lambda>s. 8 * int (length s)) ''Bot: hello there my friend how are you today'' 236)) ''Bot: hello there my friend how are you today''"
proof -
  have h1: "\<forall>c \<in> set ''Bot: hello there my friend how are you today''. isspace c \<longrightarrow> c = CHR '' ''"
    by (simp add: isspace_def)
  have h2: "\<forall>s. 8 * int (length (strip s)) \<le> 8 * int (length s)"
    by (simp add: length_strip)
  have e: "wrap_text (\<lambda>s. 8 * int (length s)) ''Bot: hello there my friend how are you today'' 236 =
     [''Bot: hello there my friend'', ''how are you today'']"
    by (simp add: wrap_text_def split_space_def strip_def isspace_def)
  have w: "(\<forall>l \<in> set (wrap_text (\<lambda>s. 8 * int (length s)) ''Bot: hello there my friend how are you today'' 236).
       8 * int (length l) \<le> 236 \<or> (length l = 1 \<and> 236 < 8 * int (length l))) \<and>
     [] \<notin> set (wrap_text (\<lambda>s. 8 * int (length s)) ''Bot: hello there my friend how are you today'' 236) \<and>
     subseq (concat (wrap_text (\<lambda>s. 8 * int (length s)) ''Bot: hello there my friend how are you today'' 236)) ''Bot: hello there my friend how are you today''"
    using h1 h2 wrap_text_lines [where text_str = "''Bot: hello there my friend how are you today''"
      and m = "\<lambda>s. 8 * int (length s)" and width = 236]
    by blast
  have "8 * int (length ''Bot: hello there my friend'') \<le> 236"
    "8 * int (length ''how are you today'') \<le> 236"
    by simp_all
  then show ?thesis using w e by blast
qed

text \<open>
  Claim C4, at a failing input. The text is \<open>a\<close>, a space, a newline, a space and \<open>b\<close>,
  at 8 pixels a character and a width of 16. The word made of the newline alone becomes
  the current line; it is not empty, so it passes the test \<open>if current_line\<close> of source
  line 114, and \<open>.strip()\<close> then makes it the empty string that is appended: the second
  line returned is empty.
\<close>

theorem wrap_text_empty_line:
  "wrap_text (\<lambda>s. 8 * int (length s))
      [CHR ''a'', CHR '' '', CHR 0x0A, CHR '' '', CHR ''b''] 16 = [''a'', [], ''b'']"
  by (simp add: wrap_text_def split_space_def strip_def isspace_def)

section \<open>Properties of \<open>draw_ui\<close>\<close>

lemma draw_lines_ops:
  "draw_lines ls y color = (ops, y') \<Longrightarrow> y \<le> y0 \<Longrightarrow>
   (\<forall>op \<in> set ops. \<exists>line v. op = Text line 2 v color \<and> 14 \<le> v \<and> v \<le> y0 - 10) \<and> y' \<le> y"
proof (induction ls arbitrary: y ops y')
  case Nil
  then show ?case by simp
next
  case (Cons l ls)
  show ?case
  proof (cases "y - 10 < 14")
    case True
    then show ?thesis using Cons.prems by simp
  next
    case False
    obtain ops1 y1 where r: "draw_lines ls (y - 10) color = (ops1, y1)"
      by (cases "draw_lines ls (y - 10) color")
    have le: "y - 10 \<le> y0" using Cons.prems(2) by simp
    have ih: "(\<forall>op \<in> set ops1. \<exists>line v. op = Text line 2 v color \<and> 14 \<le> v \<and> v \<le> y0 - 10) \<and> y1 \<le> y - 10"
      by (rule Cons.IH [OF r le])
    have "ops = Text l 2 (y - 10) color # ops1" "y' = y1"
      using Cons.prems(1) False r by simp_all
    then show ?thesis using ih False Cons.prems(2) by auto
  qed
qed

lemma draw_entries_ops:
  "y \<le> y0 \<Longrightarrow> \<forall>op \<in> set (draw_entries m W es y).
     \<exists>line v color. op = Text line 2 v color \<and> 14 \<le> v \<and> v \<le> y0 - 10"
proof (induction es arbitrary: y)
  case Nil
  then show ?case by simp
next
  case (Cons e es)
  let ?color = "if role e = User then 10 else 13::nat"
  let ?lines = "wrap_text m ((if role e = User then ''You: '' else ''Bot: '') @ part_text e) (W - 4)"
  obtain ops y' where r: "draw_lines (rev ?lines) y ?color = (ops, y')"
    by (cases "draw_lines (rev ?lines) y ?color")
  from draw_lines_ops [OF r Cons.prems]
  have o: "\<forall>op \<in> set ops. \<exists>line v color. op = Text line 2 v color \<and> 14 \<le> v \<and> v \<le> y0 - 10"
    and y': "y' \<le> y" by blast+
  have "y' \<le> y0" using y' Cons.prems by simp
  from Cons.IH [OF this]
  have rest: "\<forall>op \<in> set (draw_entries m W es y').
     \<exists>line v color. op = Text line 2 v color \<and> 14 \<le> v \<and> v \<le> y0 - 10" .
  have "draw_entries m W (e # es) y = (if y' < 14 then ops else ops @ draw_entries m W es y')"
    using r by (simp add: Let_def)
  then show ?case using o rest by auto
qed

text \<open>
  Claim C9. For every conversation, measurer and display size, every call that paints a
  line of the history is a \<open>d.text\<close> at \<open>x = 2\<close> whose \<open>y\<close> is at least 14, below the
  header, and at most \<open>H - 14\<close>: the loops are left as soon as the next \<open>y\<close> would be
  under 14, whatever the number of wrapped lines.
\<close>

theorem draw_history_below_header:
  "\<forall>op \<in> set (draw_history get_total_width W H conv).
     \<exists>line y color. op = Text line 2 y color \<and> 14 \<le> y \<and> y \<le> H - 14"
  using draw_entries_ops [of "H - 4" "H - 4" get_total_width W
      "rev (filter (\<lambda>e. e \<noteq> SYSTEM_PROMPT) conv)"]
  by (simp add: draw_history_def)

theorem draw_history_below_header_witness:
  "draw_history (\<lambda>s. 8 * int (length s)) 240 40
     [\<lparr>role = User, part_text = ''Hello''\<rparr>, \<lparr>role = Model, part_text = ''Hi there!''\<rparr>,
      \<lparr>role = User, part_text = ''How are you?''\<rparr>] =
     [Text ''You: How are you?'' 2 26 10, Text ''Bot: Hi there!'' 2 16 13] \<and>
   (14::int) \<le> 26 \<and> (14::int) \<le> 16"
proof -
  have e: "draw_history (\<lambda>s. 8 * int (length s)) 240 40
     [\<lparr>role = User, part_text = ''Hello''\<rparr>, \<lparr>role = Model, part_text = ''Hi there!''\<rparr>,
      \<lparr>role = User, part_text = ''How are you?''\<rparr>] =
     [Text ''You: How are you?'' 2 26 10, Text ''Bot: Hi there!'' 2 16 13]"
    by (simp add: draw_history_def SYSTEM_PROMPT_def wrap_text_def split_space_def strip_def
        isspace_def)
  have "\<forall>op \<in> set [Text ''You: How are you?'' 2 26 10, Text ''Bot: Hi there!'' 2 16 13].
     \<exists>line y color. op = Text line 2 y color \<and> 14 \<le> y \<and> y \<le> 40 - 14"
    using draw_history_below_header [of "\<lambda>s. 8 * int (length s)" 240 40
      "[\<lparr>role = User, part_text = ''Hello''\<rparr>, \<lparr>role = Model, part_text = ''Hi there!''\<rparr>,
      \<lparr>role = User, part_text = ''How are you?''\<rparr>]"]
    by (simp only: e)
  then show ?thesis using e by simp
qed


section \<open>Properties of \<open>call_gemini_api\<close> and \<open>main\<close>\<close>

lemma emit_simps:
  "conversation (emit e st) = conversation st"
  "events (emit e st) = events st @ [e]"
  "polls (emit e st) = polls st"
  "should_prompt_next (emit e st) = should_prompt_next st"
  by (simp_all add: emit_def)

lemma connect_wifi_frame:
  assumes "connect_wifi cfg nic st = (connected, st1)"
  shows "conversation st1 = conversation st \<and> should_prompt_next st1 = should_prompt_next st \<and>
         (\<exists>evs. events st1 = events st @ evs \<and> (\<forall>e \<in> set evs. \<exists>m. e = Error m))"
  using assms
  by (auto simp: connect_wifi_def emit_simps Let_def split: if_splits)

lemma network_check_frame:
  assumes "network_check cfg nic st = (ok, st1)"
  shows "conversation st1 = conversation st \<and> should_prompt_next st1 = should_prompt_next st \<and>
         (\<exists>evs. events st1 = events st @ evs \<and> (\<forall>e \<in> set evs. \<exists>m. e = Error m))"
proof (cases "nic (polls st)")
  case True
  then show ?thesis using assms by (auto simp: network_check_def)
next
  case False
  obtain connected st0 where c: "connect_wifi cfg nic (st\<lparr>polls := Suc (polls st)\<rparr>) = (connected, st0)"
    by (cases "connect_wifi cfg nic (st\<lparr>polls := Suc (polls st)\<rparr>)")
  from connect_wifi_frame [OF c] obtain evs where
    f: "conversation st0 = conversation st" "should_prompt_next st0 = should_prompt_next st"
       "events st0 = events st @ evs" "\<forall>e \<in> set evs. \<exists>m. e = Error m"
    by auto
  show ?thesis
  proof (cases connected)
    case True
    then have "st1 = st0" using assms False c by (simp add: network_check_def)
    then show ?thesis using f by simp
  next
    case nc: False
    then have "st1 = emit (Error (Msg ''API: No network!'')) st0"
      using assms False c by (simp add: network_check_def)
    then have "conversation st1 = conversation st" "should_prompt_next st1 = should_prompt_next st"
      "events st1 = events st @ (evs @ [Error (Msg ''API: No network!'')])"
      using f by (simp_all add: emit_simps)
    moreover have "\<forall>e \<in> set (evs @ [Error (Msg ''API: No network!'')]). \<exists>m. e = Error m"
      using f(4) by simp
    ultimately show ?thesis by blast
  qed
qed

text \<open>
  Claim C8. If the network is not connected when \<open>call_gemini_api\<close> starts and
  \<open>connect_wifi\<close> fails, the call ends with the conversation as it was: nothing is
  appended, changed or removed. All it does is show errors, the last one being
  \<open>"API: No network!"\<close>; no request is posted.
\<close>

theorem no_network_aborts:
  assumes "\<not> nic (polls st)"
    and "\<not> fst (connect_wifi cfg nic (st\<lparr>polls := Suc (polls st)\<rparr>))"
  shows "conversation (call_gemini_api cfg nic post st) = conversation st \<and>
     (\<exists>evs. events (call_gemini_api cfg nic post st) =
               events st @ evs @ [Error (Msg ''API: No network!'')] \<and>
            (\<forall>e \<in> set evs. \<exists>m. e = Error m))"
proof -
  obtain st0 where c: "connect_wifi cfg nic (st\<lparr>polls := Suc (polls st)\<rparr>) = (False, st0)"
    using assms(2) by (cases "connect_wifi cfg nic (st\<lparr>polls := Suc (polls st)\<rparr>)") simp
  from connect_wifi_frame [OF c] obtain evs where
    f: "conversation st0 = conversation st" "events st0 = events st @ evs"
       "\<forall>e \<in> set evs. \<exists>m. e = Error m"
    by auto
  have "call_gemini_api cfg nic post st = emit (Error (Msg ''API: No network!'')) st0"
    using assms(1) c by (simp add: call_gemini_api_def network_check_def)
  then show ?thesis using f by (simp add: emit_simps)
qed

theorem no_network_aborts_witness:
  "\<not> (\<lambda>n. False) (polls \<lparr>conversation = [\<lparr>role = User, part_text = ''Hello''\<rparr>], events = [],
        polls = 0, should_prompt_next = False\<rparr>) \<and>
   conversation (call_gemini_api \<lparr>wifi_ssid = ''net'', wifi_pass = ''secret'', gemini_api_key = ''key''\<rparr>
       (\<lambda>n. False) (\<lambda>p. Raises ''unreachable'')
       \<lparr>conversation = [\<lparr>role = User, part_text = ''Hello''\<rparr>], events = [],
        polls = 0, should_prompt_next = False\<rparr>) = [\<lparr>role = User, part_text = ''Hello''\<rparr>] \<and>
   events (call_gemini_api \<lparr>wifi_ssid = ''net'', wifi_pass = ''secret'', gemini_api_key = ''key''\<rparr>
       (\<lambda>n. False) (\<lambda>p. Raises ''unreachable'')
       \<lparr>conversation = [\<lparr>role = User, part_text = ''Hello''\<rparr>], events = [],
        polls = 0, should_prompt_next = False\<rparr>) =
     [Error (Msg ''WiFi connection failed!''), Error (Msg ''API: No network!'')]"
proof -
  let ?st = "\<lparr>conversation = [\<lparr>role = User, part_text = ''Hello''\<rparr>], events = [],
        polls = 0, should_prompt_next = False\<rparr>"
  let ?cfg = "\<lparr>wifi_ssid = ''net'', wifi_pass = ''secret'', gemini_api_key = ''key''\<rparr>"
  have h1: "\<not> (\<lambda>n. False) (polls ?st)" by simp
  have h2: "\<not> fst (connect_wifi ?cfg (\<lambda>n. False) (?st\<lparr>polls := Suc (polls ?st)\<rparr>))"
    by (simp add: connect_wifi_def)
  have e: "events (call_gemini_api ?cfg (\<lambda>n. False) (\<lambda>p. Raises ''unreachable'') ?st) =
     [Error (Msg ''WiFi connection failed!''), Error (Msg ''API: No network!'')]"
    by (simp add: call_gemini_api_def network_check_def connect_wifi_def emit_def)
  show ?thesis
    using no_network_aborts [of "\<lambda>n. False" ?st ?cfg "\<lambda>p. Raises ''unreachable''", OF h1 h2] e
    by simp
qed

lemma str_nat_digit: "n < 10 \<Longrightarrow> length (str_nat n) = 1"
  by (simp add: str_nat.simps [of n])

lemma str_nat_three_digits: "100 \<le> n \<Longrightarrow> n < 1000 \<Longrightarrow> length (str_nat n) = 3"
proof -
  assume a: "100 \<le> n" "n < 1000"
  have 1: "str_nat n = str_nat (n div 10) @ [''0123456789'' ! (n mod 10)]"
    using a by (simp add: str_nat.simps [of n])
  have "10 \<le> n div 10" using a by simp
  then have 2: "str_nat (n div 10) = str_nat (n div 10 div 10) @ [''0123456789'' ! (n div 10 mod 10)]"
    by (simp add: str_nat.simps [of "n div 10"])
  have "n div 10 div 10 < 10" using a by simp
  then have 3: "length (str_nat (n div 10 div 10)) = 1" by (rule str_nat_digit)
  show ?thesis by (simp add: 1 2 3)
qed

lemma http_error_message_exact:
  "http_error_message r =
     ''HTTP Error: '' @ str_int (status_code r) @
     (case content r of
        Undecodable \<Rightarrow> []
      | NotJson err_content \<Rightarrow>
          (if err_content \<noteq> [] then '' - '' @ take 50 err_content else [])
      | Json err_content v \<Rightarrow>
          (if err_content \<noteq> [] then '' - '' @ take 50 err_content else []))"
  by (cases "content r") (simp_all add: http_error_message_def)

lemma http_error_message_bound:
  "length (http_error_message r) \<le> length (str_int (status_code r)) + 65"
  by (cases "content r") (simp_all add: http_error_message_def)

lemma http_error_message_length:
  assumes "100 \<le> status_code r" "status_code r \<le> 999"
  shows "length (http_error_message r) \<le> 68"
proof -
  have "length (str_int (status_code r)) = 3"
    using assms by (simp add: str_int_def str_nat_three_digits)
  then show ?thesis using http_error_message_bound [of r] by simp
qed

text \<open>
  Claim C6. When the request is sent and the transport returns a status other than 200,
  the conversation after \<open>call_gemini_api\<close> is the conversation before it: the placeholder
  is removed and no model entry stays. Exactly one error is shown. Its text is
  \<open>"HTTP Error: "\<close> and the status code in decimal, followed, when the body decodes to a
  text that is not empty, by \<open>" - "\<close> and the first 50 characters of this text, and by
  nothing otherwise. It has at most 65 characters besides the status code, so at most 68
  for a status code of three digits.
\<close>

theorem http_error_rolls_back:
  assumes nc: "network_check cfg nic st = (True, st1)"
    and p: "post (payload_contents (conversation st)) = Returns r"
    and s: "status_code r \<noteq> 200"
  shows "conversation (call_gemini_api cfg nic post st) = conversation st \<and>
     events (call_gemini_api cfg nic post st) =
       events st1 @ [Post (payload_contents (conversation st)), Error (Msg (http_error_message r))] \<and>
     http_error_message r =
       ''HTTP Error: '' @ str_int (status_code r) @
       (case content r of
          Undecodable \<Rightarrow> []
        | NotJson err_content \<Rightarrow>
            (if err_content \<noteq> [] then '' - '' @ take 50 err_content else [])
        | Json err_content v \<Rightarrow>
            (if err_content \<noteq> [] then '' - '' @ take 50 err_content else [])) \<and>
     length (http_error_message r) \<le> length (str_int (status_code r)) + 65 \<and>
     (100 \<le> status_code r \<and> status_code r \<le> 999 \<longrightarrow> length (http_error_message r) \<le> 68)"
proof -
  have c: "conversation st1 = conversation st"
    using network_check_frame [OF nc] by simp
  have "call_gemini_api cfg nic post st =
      send_request post (payload_contents (conversation st)) (length (conversation st))
        (st1\<lparr>conversation := conversation st @ [bot_response_entry]\<rparr>)"
    by (simp add: call_gemini_api_def nc c Let_def)
  then have 1: "conversation (call_gemini_api cfg nic post st) = conversation st"
    and 2: "events (call_gemini_api cfg nic post st) =
       events st1 @ [Post (payload_contents (conversation st)), Error (Msg (http_error_message r))]"
    using p s by (simp_all add: send_request_def emit_def Let_def)
  show ?thesis
    using 1 2 http_error_message_exact [of r] http_error_message_bound [of r]
      http_error_message_length [of r]
    by blast
qed

theorem http_error_rolls_back_witness:
  "conversation (call_gemini_api \<lparr>wifi_ssid = ''net'', wifi_pass = ''secret'', gemini_api_key = ''key''\<rparr>
       (\<lambda>n. True)
       (\<lambda>p. Returns \<lparr>status_code = 503, content = NotJson
          ''Service Unavailable: the model is overloaded, please try again in a few minutes''\<rparr>)
       \<lparr>conversation = [\<lparr>role = User, part_text = ''Hello''\<rparr>], events = [],
        polls = 0, should_prompt_next = False\<rparr>) = [\<lparr>role = User, part_text = ''Hello''\<rparr>] \<and>
   events (call_gemini_api \<lparr>wifi_ssid = ''net'', wifi_pass = ''secret'', gemini_api_key = ''key''\<rparr>
       (\<lambda>n. True)
       (\<lambda>p. Returns \<lparr>status_code = 503, content = NotJson
          ''Service Unavailable: the model is overloaded, please try again in a few minutes''\<rparr>)
       \<lparr>conversation = [\<lparr>role = User, part_text = ''Hello''\<rparr>], events = [],
        polls = 0, should_prompt_next = False\<rparr>) =
     [Post [SYSTEM_PROMPT, \<lparr>role = User, part_text = ''Hello''\<rparr>],
      Error (Msg ''HTTP Error: 503 - Service Unavailable: the model is overloaded, plea'')] \<and>
   length ''HTTP Error: 503 - Service Unavailable: the model is overloaded, plea'' = 68"
proof -
  let ?st = "\<lparr>conversation = [\<lparr>role = User, part_text = ''Hello''\<rparr>], events = [],
        polls = 0, should_prompt_next = False\<rparr>"
  let ?cfg = "\<lparr>wifi_ssid = ''net'', wifi_pass = ''secret'', gemini_api_key = ''key''\<rparr>"
  let ?r = "\<lparr>status_code = 503, content = NotJson
          ''Service Unavailable: the model is overloaded, please try again in a few minutes''\<rparr>"
  have h1: "network_check ?cfg (\<lambda>n. True) ?st = (True, ?st\<lparr>polls := 1\<rparr>)"
    by (simp add: network_check_def)
  have h2: "(\<lambda>p. Returns ?r) (payload_contents (conversation ?st)) = Returns ?r" by simp
  have h3: "status_code ?r \<noteq> 200" by simp
  have n: "str_int 503 = ''503''"
    by (simp add: str_int_def str_nat.simps)
  have pl: "payload_contents [\<lparr>role = User, part_text = ''Hello''\<rparr>] =
      [SYSTEM_PROMPT, \<lparr>role = User, part_text = ''Hello''\<rparr>]"
    by (simp add: payload_contents_def SYSTEM_PROMPT_def MAX_CONVERSATION_HISTORY_def)
  have "conversation (call_gemini_api ?cfg (\<lambda>n. True) (\<lambda>p. Returns ?r) ?st) =
      [\<lparr>role = User, part_text = ''Hello''\<rparr>] \<and>
    events (call_gemini_api ?cfg (\<lambda>n. True) (\<lambda>p. Returns ?r) ?st) =
      [Post [SYSTEM_PROMPT, \<lparr>role = User, part_text = ''Hello''\<rparr>],
       Error (Msg (http_error_message ?r))] \<and>
    http_error_message ?r = ''HTTP Error: 503 - Service Unavailable: the model is overloaded, plea''"
    using http_error_rolls_back [OF h1 h2 h3] by (simp add: n pl)
  then show ?thesis by simp
qed

lemma key_in_dict: "map_of kvs k = Some v \<Longrightarrow> k \<in> fst ` set kvs"
  by (drule map_of_SomeD) (force simp: image_iff)

lemma extract_text_present:
  assumes "map_of d ''candidates'' = Some (JArr (JObj c # cs))"
    and "map_of c ''content'' = Some (JObj ct)"
    and "map_of ct ''parts'' = Some (JArr (JObj pt # pts))"
    and "map_of pt ''text'' = Some full_text_response"
  shows "extract_text (JObj d) = Inr (Some full_text_response)"
  using assms
  by (simp add: extract_text_def bindE_def key_in_dict [OF assms(1)]
      key_in_dict [OF assms(2)] key_in_dict [OF assms(3)] key_in_dict [OF assms(4)])

text \<open>
  Claim C7. When the request is sent and the transport returns status 200 with a body in
  which \<open>candidates[0].content.parts[0].text\<close> is present at every level and is a
  string, the placeholder is filled with exactly this string: the conversation after
  \<open>call_gemini_api\<close> is the conversation before it followed by one model entry with the
  text, the sound is played once and the screen is drawn again. The witness is the run in
  which \<open>"Hello"\<close> is entered with an empty history: the payload is the system prompt and
  the user entry, and the conversation ends with the two entries \<open>"Hello"\<close> and
  \<open>"Hi there!"\<close>.
\<close>

theorem success_fills_placeholder:
  assumes nc: "network_check cfg nic st = (True, st1)"
    and p: "post (payload_contents (conversation st)) = Returns r"
    and s: "status_code r = 200"
    and b: "content r = Json raw (JObj d)"
    and "map_of d ''candidates'' = Some (JArr (JObj c # cs))"
    and "map_of c ''content'' = Some (JObj ct)"
    and "map_of ct ''parts'' = Some (JArr (JObj pt # pts))"
    and "map_of pt ''text'' = Some (JStr t)"
  shows "conversation (call_gemini_api cfg nic post st) =
           conversation st @ [\<lparr>role = Model, part_text = t\<rparr>] \<and>
     events (call_gemini_api cfg nic post st) =
       events st1 @ [Post (payload_contents (conversation st)), Beep,
                     Draw (conversation st @ [\<lparr>role = Model, part_text = t\<rparr>])]"
proof -
  have c: "conversation st1 = conversation st"
    using network_check_frame [OF nc] by simp
  have e: "extract_text (JObj d) = Inr (Some (JStr t))"
    using assms(5-8) by (rule extract_text_present)
  have "call_gemini_api cfg nic post st =
      send_request post (payload_contents (conversation st)) (length (conversation st))
        (st1\<lparr>conversation := conversation st @ [bot_response_entry]\<rparr>)"
    by (simp add: call_gemini_api_def nc c Let_def)
  then show ?thesis
    using p s b e
    by (simp add: send_request_def parse_response_def process_response_def emit_def Let_def
        bot_response_entry_def)
qed

theorem success_fills_placeholder_witness:
  "main_start \<lparr>wifi_ssid = ''net'', wifi_pass = ''secret'', gemini_api_key = ''key''\<rparr> (\<lambda>n. True) =
     Continue \<lparr>conversation = [], events = [Draw []], polls = 1, should_prompt_next = True\<rparr> \<and>
   conversation (prompt_step \<lparr>wifi_ssid = ''net'', wifi_pass = ''secret'', gemini_api_key = ''key''\<rparr>
       (\<lambda>n. True)
       (\<lambda>p. Returns \<lparr>status_code = 200, content = Json ''(response body)''
          (JObj [(''candidates'', JArr [JObj [(''content'',
             JObj [(''parts'', JArr [JObj [(''text'', JStr ''Hi there!'')]])])]])])\<rparr>)
       (Some ''Hello'')
       \<lparr>conversation = [], events = [Draw []], polls = 1, should_prompt_next = True\<rparr>) =
     [\<lparr>role = User, part_text = ''Hello''\<rparr>, \<lparr>role = Model, part_text = ''Hi there!''\<rparr>] \<and>
   events (prompt_step \<lparr>wifi_ssid = ''net'', wifi_pass = ''secret'', gemini_api_key = ''key''\<rparr>
       (\<lambda>n. True)
       (\<lambda>p. Returns \<lparr>status_code = 200, content = Json ''(response body)''
          (JObj [(''candidates'', JArr [JObj [(''content'',
             JObj [(''parts'', JArr [JObj [(''text'', JStr ''Hi there!'')]])])]])])\<rparr>)
       (Some ''Hello'')
       \<lparr>conversation = [], events = [Draw []], polls = 1, should_prompt_next = True\<rparr>) =
     [Draw [], TextEntry, Draw [\<lparr>role = User, part_text = ''Hello''\<rparr>],
      Post [SYSTEM_PROMPT, \<lparr>role = User, part_text = ''Hello''\<rparr>], Beep,
      Draw [\<lparr>role = User, part_text = ''Hello''\<rparr>, \<lparr>role = Model, part_text = ''Hi there!''\<rparr>]]"
proof -
  let ?cfg = "\<lparr>wifi_ssid = ''net'', wifi_pass = ''secret'', gemini_api_key = ''key''\<rparr>"
  let ?nic = "\<lambda>n::nat. True"
  let ?r = "\<lparr>status_code = 200, content = Json ''(response body)''
          (JObj [(''candidates'', JArr [JObj [(''content'',
             JObj [(''parts'', JArr [JObj [(''text'', JStr ''Hi there!'')]])])]])])\<rparr>"
  let ?st3 = "\<lparr>conversation = [\<lparr>role = User, part_text = ''Hello''\<rparr>],
      events = [Draw [], TextEntry, Draw [\<lparr>role = User, part_text = ''Hello''\<rparr>]],
      polls = 1, should_prompt_next = False\<rparr>"
  have h1: "network_check ?cfg ?nic ?st3 = (True, ?st3\<lparr>polls := 2\<rparr>)"
    by (simp add: network_check_def)
  have h2: "(\<lambda>p. Returns ?r) (payload_contents (conversation ?st3)) = Returns ?r" by simp
  have h3: "status_code ?r = 200" by simp
  have h4: "content ?r = Json ''(response body)''
          (JObj [(''candidates'', JArr [JObj [(''content'',
             JObj [(''parts'', JArr [JObj [(''text'', JStr ''Hi there!'')]])])]])])" by simp
  have h5: "map_of [(''candidates'', JArr [JObj [(''content'',
             JObj [(''parts'', JArr [JObj [(''text'', JStr ''Hi there!'')]])])]])] ''candidates'' =
     Some (JArr (JObj [(''content'', JObj [(''parts'', JArr [JObj [(''text'', JStr ''Hi there!'')]])])] # []))"
    by simp
  have h6: "map_of [(''content'', JObj [(''parts'', JArr [JObj [(''text'', JStr ''Hi there!'')]])])] ''content'' =
     Some (JObj [(''parts'', JArr [JObj [(''text'', JStr ''Hi there!'')]])])" by simp
  have h7: "map_of [(''parts'', JArr [JObj [(''text'', JStr ''Hi there!'')]])] ''parts'' =
     Some (JArr (JObj [(''text'', JStr ''Hi there!'')] # []))" by simp
  have h8: "map_of [(''text'', JStr ''Hi there!'')] ''text'' = Some (JStr ''Hi there!'')" by simp
  have pl: "payload_contents [\<lparr>role = User, part_text = ''Hello''\<rparr>] =
      [SYSTEM_PROMPT, \<lparr>role = User, part_text = ''Hello''\<rparr>]"
    by (simp add: payload_contents_def SYSTEM_PROMPT_def MAX_CONVERSATION_HISTORY_def)
  have ms: "main_start ?cfg ?nic =
     Continue \<lparr>conversation = [], events = [Draw []], polls = 1, should_prompt_next = True\<rparr>"
    by (simp add: main_start_def connect_wifi_def initial_state_def emit_def)
  have ps: "prompt_step ?cfg ?nic (\<lambda>p. Returns ?r) (Some ''Hello'')
       \<lparr>conversation = [], events = [Draw []], polls = 1, should_prompt_next = True\<rparr> =
     (call_gemini_api ?cfg ?nic (\<lambda>p. Returns ?r) ?st3)\<lparr>should_prompt_next := True\<rparr>"
    by (simp add: prompt_step_def emit_def)
  have "conversation (call_gemini_api ?cfg ?nic (\<lambda>p. Returns ?r) ?st3) =
      [\<lparr>role = User, part_text = ''Hello''\<rparr>, \<lparr>role = Model, part_text = ''Hi there!''\<rparr>] \<and>
    events (call_gemini_api ?cfg ?nic (\<lambda>p. Returns ?r) ?st3) =
      [Draw [], TextEntry, Draw [\<lparr>role = User, part_text = ''Hello''\<rparr>],
       Post [SYSTEM_PROMPT, \<lparr>role = User, part_text = ''Hello''\<rparr>], Beep,
       Draw [\<lparr>role = User, part_text = ''Hello''\<rparr>, \<lparr>role = Model, part_text = ''Hi there!''\<rparr>]]"
    using success_fills_placeholder [OF h1 h2 h3 h4 h5 h6 h7 h8]
    by (simp add: pl)
  then show ?thesis
    by (simp only: ms ps) simp
qed

lemma pop_events: "events (pop st) = events st"
  by (simp add: pop_def)

lemma process_response_events:
  "process_response r i st = Inr st' \<Longrightarrow>
     \<exists>evs. events st' = events st @ evs \<and> (\<forall>p. Post p \<notin> set evs)"
  "process_response r i st = Inl (e, st') \<Longrightarrow>
     \<exists>evs. events st' = events st @ evs \<and> (\<forall>p. Post p \<notin> set evs)"
  by (auto simp: process_response_def emit_def Let_def
      split: sum.splits option.splits json.splits)

lemma parse_response_events:
  "parse_response r i st = Inr st' \<Longrightarrow>
     \<exists>evs. events st' = events st @ evs \<and> (\<forall>p. Post p \<notin> set evs)"
  "parse_response r i st = Inl (e, st') \<Longrightarrow>
     \<exists>evs. events st' = events st @ evs \<and> (\<forall>p. Post p \<notin> set evs)"
proof -
  assume a: "parse_response r i st = Inr st'"
  show "\<exists>evs. events st' = events st @ evs \<and> (\<forall>p. Post p \<notin> set evs)"
  proof (cases "process_response r i st")
    case (Inr s)
    then show ?thesis using a process_response_events(1) [OF Inr]
      by (simp add: parse_response_def)
  next
    case (Inl x)
    obtain e0 s where x: "x = (e0, s)" by (cases x)
    from process_response_events(2) [OF Inl [unfolded x]] obtain evs where
      evs: "events s = events st @ evs" "\<forall>p. Post p \<notin> set evs" by blast
    have "st' = emit (Error (Msg ''JSON Parse Error'')) s"
      using a Inl x by (simp add: parse_response_def split: if_splits)
    then have "events st' = events st @ (evs @ [Error (Msg ''JSON Parse Error'')])"
      using evs by (simp add: emit_def)
    moreover have "\<forall>p. Post p \<notin> set (evs @ [Error (Msg ''JSON Parse Error'')])"
      using evs by simp
    ultimately show ?thesis by blast
  qed
next
  assume a: "parse_response r i st = Inl (e, st')"
  show "\<exists>evs. events st' = events st @ evs \<and> (\<forall>p. Post p \<notin> set evs)"
  proof (cases "process_response r i st")
    case (Inr s)
    then show ?thesis using a by (simp add: parse_response_def)
  next
    case (Inl x)
    obtain e0 s where x: "x = (e0, s)" by (cases x)
    have "s = st'" using a Inl x by (simp add: parse_response_def split: if_splits)
    then show ?thesis using process_response_events(2) [OF Inl [unfolded x]] by simp
  qed
qed

lemma send_request_events:
  "\<exists>evs. events (send_request post payload i st) = events st @ Post payload # evs \<and>
     (\<forall>p. Post p \<notin> set evs)"
proof (cases "post payload")
  case (Raises d)
  then have "events (send_request post payload i st) =
      events st @ Post payload # [Error (RequestFail (RequestException d))]"
    by (simp add: send_request_def emit_def pop_def Let_def)
  then show ?thesis by simp
next
  case (Returns r)
  show ?thesis
  proof (cases "status_code r \<noteq> 200")
    case True
    then have "events (send_request post payload i st) =
        events st @ Post payload # [Error (Msg (http_error_message r))]"
      using Returns by (simp add: send_request_def emit_def Let_def)
    then show ?thesis by simp
  next
    case False
    let ?st1 = "emit (Post payload) st"
    show ?thesis
    proof (cases "parse_response r i ?st1")
      case (Inr s)
      from parse_response_events(1) [OF Inr] obtain evs where
        "events s = events ?st1 @ evs" "\<forall>p. Post p \<notin> set evs" by blast
      moreover have "send_request post payload i st = s"
        using Returns False Inr by (simp add: send_request_def Let_def)
      ultimately show ?thesis by (simp add: emit_def)
    next
      case (Inl x)
      obtain e s where x: "x = (e, s)" by (cases x)
      from parse_response_events(2) [OF Inl [unfolded x]] obtain evs where
        evs: "events s = events ?st1 @ evs" "\<forall>p. Post p \<notin> set evs" by blast
      have "send_request post payload i st = pop (emit (Error (RequestFail e)) s)"
        using Returns False Inl x by (simp add: send_request_def Let_def)
      then have "events (send_request post payload i st) =
          events st @ Post payload # (evs @ [Error (RequestFail e)])"
        using evs by (simp add: pop_events emit_def)
      moreover have "\<forall>p. Post p \<notin> set (evs @ [Error (RequestFail e)])" using evs by simp
      ultimately show ?thesis by blast
    qed
  qed
qed

lemma call_gemini_api_posts:
  assumes "network_check cfg nic st = (True, st1)"
  shows "\<exists>evs. events (call_gemini_api cfg nic post st) =
            events st1 @ Post (payload_contents (conversation st)) # evs \<and>
          (\<forall>p. Post p \<notin> set evs)"
proof -
  have c: "conversation st1 = conversation st"
    using network_check_frame [OF assms] by simp
  have "call_gemini_api cfg nic post st =
      send_request post (payload_contents (conversation st)) (length (conversation st))
        (st1\<lparr>conversation := conversation st @ [bot_response_entry]\<rparr>)"
    by (simp add: call_gemini_api_def assms c Let_def)
  then show ?thesis
    using send_request_events [of post "payload_contents (conversation st)"
        "length (conversation st)" "st1\<lparr>conversation := conversation st @ [bot_response_entry]\<rparr>"]
    by simp
qed

lemma payload_contents_eq:
  "payload_contents conv =
     SYSTEM_PROMPT # drop (length (filter (\<lambda>e. e \<noteq> SYSTEM_PROMPT) conv) - 2 * MAX_CONVERSATION_HISTORY)
                       (filter (\<lambda>e. e \<noteq> SYSTEM_PROMPT) conv)"
proof -
  have "nat (max 0 (int n - int (MAX_CONVERSATION_HISTORY * 2))) = n - 2 * MAX_CONVERSATION_HISTORY"
    for n by (simp add: MAX_CONVERSATION_HISTORY_def)
  then show ?thesis by (simp add: payload_contents_def Let_def)
qed

text \<open>
  For every conversation, \<open>payload_contents\<close> is the system prompt followed by the last
  \<open>2 * MAX_CONVERSATION_HISTORY = 10\<close> (or fewer, if there are fewer) of the stored entries
  that differ from the system prompt, the oldest being dropped. It is computed from the
  conversation as it is before the placeholder of the request is appended, and it is what
  the one request of the call posts.
\<close>

lemma payload_contents_window:
  "payload_contents conv =
     SYSTEM_PROMPT # drop (length (filter (\<lambda>e. e \<noteq> SYSTEM_PROMPT) conv) - 2 * MAX_CONVERSATION_HISTORY)
                       (filter (\<lambda>e. e \<noteq> SYSTEM_PROMPT) conv) \<and>
   length (payload_contents conv) \<le> 2 * MAX_CONVERSATION_HISTORY + 1 \<and>
   MAX_CONVERSATION_HISTORY = 5 \<and>
   (bot_response_entry \<notin> set conv \<longrightarrow> bot_response_entry \<notin> set (payload_contents conv)) \<and>
   (network_check cfg nic st = (True, st1) \<longrightarrow>
      (\<exists>evs. events (call_gemini_api cfg nic post st) =
                events st1 @ Post (payload_contents (conversation st)) # evs \<and>
              (\<forall>p. Post p \<notin> set evs)))"
proof -
  let ?h = "filter (\<lambda>e. e \<noteq> SYSTEM_PROMPT) conv"
  let ?d = "drop (length ?h - 2 * MAX_CONVERSATION_HISTORY) ?h"
  have 1: "payload_contents conv = SYSTEM_PROMPT # ?d" by (rule payload_contents_eq)
  have 2: "length (payload_contents conv) \<le> 2 * MAX_CONVERSATION_HISTORY + 1"
    by (simp add: 1)
  have 3: "MAX_CONVERSATION_HISTORY = 5" by (rule MAX_CONVERSATION_HISTORY_def)
  have "set ?d \<subseteq> set conv"
  proof -
    have "set ?d \<subseteq> set ?h" by (rule set_drop_subset)
    also have "\<dots> \<subseteq> set conv" by (rule filter_is_subset)
    finally show ?thesis .
  qed
  moreover have "bot_response_entry \<noteq> SYSTEM_PROMPT"
    by (simp add: bot_response_entry_def SYSTEM_PROMPT_def)
  ultimately have 4: "bot_response_entry \<notin> set conv \<longrightarrow> bot_response_entry \<notin> set (payload_contents conv)"
    unfolding 1 by auto
  show ?thesis
    using 1 2 3 4 call_gemini_api_posts [of cfg nic st st1 post] by blast
qed

lemma payload_contents_window_example:
  "payload_contents
     [\<lparr>role = User, part_text = ''q1''\<rparr>, \<lparr>role = Model, part_text = ''a1''\<rparr>,
      \<lparr>role = User, part_text = ''q2''\<rparr>, \<lparr>role = Model, part_text = ''a2''\<rparr>,
      \<lparr>role = User, part_text = ''q3''\<rparr>, \<lparr>role = Model, part_text = ''a3''\<rparr>,
      \<lparr>role = User, part_text = ''q4''\<rparr>, \<lparr>role = Model, part_text = ''a4''\<rparr>,
      \<lparr>role = User, part_text = ''q5''\<rparr>, \<lparr>role = Model, part_text = ''a5''\<rparr>,
      \<lparr>role = User, part_text = ''q6''\<rparr>, \<lparr>role = Model, part_text = ''a6''\<rparr>] =
     [SYSTEM_PROMPT,
      \<lparr>role = User, part_text = ''q2''\<rparr>, \<lparr>role = Model, part_text = ''a2''\<rparr>,
      \<lparr>role = User, part_text = ''q3''\<rparr>, \<lparr>role = Model, part_text = ''a3''\<rparr>,
      \<lparr>role = User, part_text = ''q4''\<rparr>, \<lparr>role = Model, part_text = ''a4''\<rparr>,
      \<lparr>role = User, part_text = ''q5''\<rparr>, \<lparr>role = Model, part_text = ''a5''\<rparr>,
      \<lparr>role = User, part_text = ''q6''\<rparr>, \<lparr>role = Model, part_text = ''a6''\<rparr>] \<and>
   bot_response_entry \<notin> set (payload_contents
     [\<lparr>role = User, part_text = ''q1''\<rparr>, \<lparr>role = Model, part_text = ''a1''\<rparr>,
      \<lparr>role = User, part_text = ''q2''\<rparr>, \<lparr>role = Model, part_text = ''a2''\<rparr>,
      \<lparr>role = User, part_text = ''q3''\<rparr>, \<lparr>role = Model, part_text = ''a3''\<rparr>,
      \<lparr>role = User, part_text = ''q4''\<rparr>, \<lparr>role = Model, part_text = ''a4''\<rparr>,
      \<lparr>role = User, part_text = ''q5''\<rparr>, \<lparr>role = Model, part_text = ''a5''\<rparr>,
      \<lparr>role = User, part_text = ''q6''\<rparr>, \<lparr>role = Model, part_text = ''a6''\<rparr>]) \<and>
   (\<exists>evs. events (call_gemini_api
        \<lparr>wifi_ssid = ''net'', wifi_pass = ''secret'', gemini_api_key = ''key''\<rparr>
        (\<lambda>n. True) (\<lambda>p. Raises ''timeout'')
        \<lparr>conversation = [\<lparr>role = User, part_text = ''q1''\<rparr>, \<lparr>role = Model, part_text = ''a1''\<rparr>,
      \<lparr>role = User, part_text = ''q2''\<rparr>, \<lparr>role = Model, part_text = ''a2''\<rparr>,
      \<lparr>role = User, part_text = ''q3''\<rparr>, \<lparr>role = Model, part_text = ''a3''\<rparr>,
      \<lparr>role = User, part_text = ''q4''\<rparr>, \<lparr>role = Model, part_text = ''a4''\<rparr>,
      \<lparr>role = User, part_text = ''q5''\<rparr>, \<lparr>role = Model, part_text = ''a5''\<rparr>,
      \<lparr>role = User, part_text = ''q6''\<rparr>, \<lparr>role = Model, part_text = ''a6''\<rparr>],
         events = [], polls = 0, should_prompt_next = False\<rparr>) =
      Post [SYSTEM_PROMPT,
      \<lparr>role = User, part_text = ''q2''\<rparr>, \<lparr>role = Model, part_text = ''a2''\<rparr>,
      \<lparr>role = User, part_text = ''q3''\<rparr>, \<lparr>role = Model, part_text = ''a3''\<rparr>,
      \<lparr>role = User, part_text = ''q4''\<rparr>, \<lparr>role = Model, part_text = ''a4''\<rparr>,
      \<lparr>role = User, part_text = ''q5''\<rparr>, \<lparr>role = Model, part_text = ''a5''\<rparr>,
      \<lparr>role = User, part_text = ''q6''\<rparr>, \<lparr>role = Model, part_text = ''a6''\<rparr>] # evs \<and>
      (\<forall>p. Post p \<notin> set evs))"
proof -
  let ?conv = "[\<lparr>role = User, part_text = ''q1''\<rparr>, \<lparr>role = Model, part_text = ''a1''\<rparr>,
      \<lparr>role = User, part_text = ''q2''\<rparr>, \<lparr>role = Model, part_text = ''a2''\<rparr>,
      \<lparr>role = User, part_text = ''q3''\<rparr>, \<lparr>role = Model, part_text = ''a3''\<rparr>,
      \<lparr>role = User, part_text = ''q4''\<rparr>, \<lparr>role = Model, part_text = ''a4''\<rparr>,
      \<lparr>role = User, part_text = ''q5''\<rparr>, \<lparr>role = Model, part_text = ''a5''\<rparr>,
      \<lparr>role = User, part_text = ''q6''\<rparr>, \<lparr>role = Model, part_text = ''a6''\<rparr>]"
  let ?st = "\<lparr>conversation = ?conv, events = [], polls = 0, should_prompt_next = False\<rparr>"
  let ?cfg = "\<lparr>wifi_ssid = ''net'', wifi_pass = ''secret'', gemini_api_key = ''key''\<rparr>"
  have h1: "network_check ?cfg (\<lambda>n. True) ?st = (True, ?st\<lparr>polls := 1\<rparr>)"
    by (simp add: network_check_def)
  have h2: "bot_response_entry \<notin> set ?conv"
    by (simp add: bot_response_entry_def)
  have pl: "payload_contents ?conv =
     [SYSTEM_PROMPT,
      \<lparr>role = User, part_text = ''q2''\<rparr>, \<lparr>role = Model, part_text = ''a2''\<rparr>,
      \<lparr>role = User, part_text = ''q3''\<rparr>, \<lparr>role = Model, part_text = ''a3''\<rparr>,
      \<lparr>role = User, part_text = ''q4''\<rparr>, \<lparr>role = Model, part_text = ''a4''\<rparr>,
      \<lparr>role = User, part_text = ''q5''\<rparr>, \<lparr>role = Model, part_text = ''a5''\<rparr>,
      \<lparr>role = User, part_text = ''q6''\<rparr>, \<lparr>role = Model, part_text = ''a6''\<rparr>]"
    by (simp add: payload_contents_def SYSTEM_PROMPT_def MAX_CONVERSATION_HISTORY_def)
  have w: "bot_response_entry \<notin> set (payload_contents ?conv) \<and>
    (\<exists>evs. events (call_gemini_api ?cfg (\<lambda>n. True) (\<lambda>p. Raises ''timeout'') ?st) =
        events (?st\<lparr>polls := 1\<rparr>) @ Post (payload_contents (conversation ?st)) # evs \<and>
      (\<forall>p. Post p \<notin> set evs))"
    using payload_contents_window [of ?conv ?cfg "\<lambda>n. True" ?st "?st\<lparr>polls := 1\<rparr>"
        "\<lambda>p. Raises ''timeout''"] h1 h2
    by blast
  then show ?thesis by (simp add: pl)
qed

text \<open>
  Claim C5, at a failing input. Two prompts, \<open>"a"\<close> and \<open>"b"\<close>, are entered one after the
  other from the empty conversation, and each request is answered with status 200 and the
  body \<open>{}\<close>. The first request ends with its placeholder still in the conversation, and
  the payload of the second request carries it: an empty model entry that was never
  filled is sent.
\<close>

theorem stale_placeholder_is_posted:
  "conversation
     (prompt_step \<lparr>wifi_ssid = ''net'', wifi_pass = ''secret'', gemini_api_key = ''key''\<rparr> (\<lambda>n. True)
        (\<lambda>p. Returns \<lparr>status_code = 200, content = Json ''{}'' (JObj [])\<rparr>)
        (Some ''a'')
        \<lparr>conversation = [], events = [], polls = 0, should_prompt_next = True\<rparr>) =
     [\<lparr>role = User, part_text = ''a''\<rparr>, \<lparr>role = Model, part_text = []\<rparr>] \<and>
   events
     (prompt_step \<lparr>wifi_ssid = ''net'', wifi_pass = ''secret'', gemini_api_key = ''key''\<rparr> (\<lambda>n. True)
        (\<lambda>p. Returns \<lparr>status_code = 200, content = Json ''{}'' (JObj [])\<rparr>)
        (Some ''b'')
        (prompt_step \<lparr>wifi_ssid = ''net'', wifi_pass = ''secret'', gemini_api_key = ''key''\<rparr> (\<lambda>n. True)
           (\<lambda>p. Returns \<lparr>status_code = 200, content = Json ''{}'' (JObj [])\<rparr>)
           (Some ''a'')
           \<lparr>conversation = [], events = [], polls = 0, should_prompt_next = True\<rparr>)) =
     [TextEntry, Draw [\<lparr>role = User, part_text = ''a''\<rparr>],
      Post [SYSTEM_PROMPT, \<lparr>role = User, part_text = ''a''\<rparr>],
      Error (Msg ''Bad API Response''),
      TextEntry,
      Draw [\<lparr>role = User, part_text = ''a''\<rparr>, \<lparr>role = Model, part_text = []\<rparr>,
            \<lparr>role = User, part_text = ''b''\<rparr>],
      Post [SYSTEM_PROMPT, \<lparr>role = User, part_text = ''a''\<rparr>, \<lparr>role = Model, part_text = []\<rparr>,
            \<lparr>role = User, part_text = ''b''\<rparr>],
      Error (Msg ''Bad API Response'')]"
  by (simp add: prompt_step_def call_gemini_api_def network_check_def payload_contents_def
      send_request_def parse_response_def process_response_def extract_text_def bindE_def
      emit_def Let_def bot_response_entry_def MAX_CONVERSATION_HISTORY_def SYSTEM_PROMPT_def)



text \<open>
  Claim C1, at a failing input. The conversation holds the user entry \<open>"Hello"\<close>, the
  network is connected, and the transport returns status 200 with the body \<open>{}\<close>, which
  has no \<open>candidates\<close>. The error \<open>"Bad API Response"\<close> is shown, distinct from the
  message of an HTTP error, but the placeholder is not removed: the conversation has two
  entries after the call, one more than before the placeholder was appended. The same
  holds for a body that is not JSON, with the error \<open>"JSON Parse Error"\<close>.
\<close>

theorem malformed_body_keeps_placeholder:
  "conversation (call_gemini_api \<lparr>wifi_ssid = ''net'', wifi_pass = ''secret'', gemini_api_key = ''key''\<rparr>
       (\<lambda>n. True) (\<lambda>p. Returns \<lparr>status_code = 200, content = Json ''{}'' (JObj [])\<rparr>)
       \<lparr>conversation = [\<lparr>role = User, part_text = ''Hello''\<rparr>], events = [],
        polls = 0, should_prompt_next = False\<rparr>) =
     [\<lparr>role = User, part_text = ''Hello''\<rparr>, \<lparr>role = Model, part_text = []\<rparr>] \<and>
   events (call_gemini_api \<lparr>wifi_ssid = ''net'', wifi_pass = ''secret'', gemini_api_key = ''key''\<rparr>
       (\<lambda>n. True) (\<lambda>p. Returns \<lparr>status_code = 200, content = Json ''{}'' (JObj [])\<rparr>)
       \<lparr>conversation = [\<lparr>role = User, part_text = ''Hello''\<rparr>], events = [],
        polls = 0, should_prompt_next = False\<rparr>) =
     [Post [SYSTEM_PROMPT, \<lparr>role = User, part_text = ''Hello''\<rparr>],
      Error (Msg ''Bad API Response'')] \<and>
   conversation (call_gemini_api \<lparr>wifi_ssid = ''net'', wifi_pass = ''secret'', gemini_api_key = ''key''\<rparr>
       (\<lambda>n. True) (\<lambda>p. Returns \<lparr>status_code = 200, content = NotJson ''<html>''\<rparr>)
       \<lparr>conversation = [\<lparr>role = User, part_text = ''Hello''\<rparr>], events = [],
        polls = 0, should_prompt_next = False\<rparr>) =
     [\<lparr>role = User, part_text = ''Hello''\<rparr>, \<lparr>role = Model, part_text = []\<rparr>] \<and>
   events (call_gemini_api \<lparr>wifi_ssid = ''net'', wifi_pass = ''secret'', gemini_api_key = ''key''\<rparr>
       (\<lambda>n. True) (\<lambda>p. Returns \<lparr>status_code = 200, content = NotJson ''<html>''\<rparr>)
       \<lparr>conversation = [\<lparr>role = User, part_text = ''Hello''\<rparr>], events = [],
        polls = 0, should_prompt_next = False\<rparr>) =
     [Post [SYSTEM_PROMPT, \<lparr>role = User, part_text = ''Hello''\<rparr>],
      Error (Msg ''JSON Parse Error'')]"
  by (simp add: call_gemini_api_def network_check_def payload_contents_def send_request_def
      parse_response_def process_response_def extract_text_def bindE_def emit_def Let_def
      bot_response_entry_def MAX_CONVERSATION_HISTORY_def SYSTEM_PROMPT_def)

text \<open>
  Claim C2, at a failing input. Two prompts, \<open>"a"\<close> and \<open>"b"\<close>, are entered one after the
  other from the empty conversation, and each request is answered with status 200 and the
  body \<open>{}\<close>. After the two requests have ended the conversation holds two empty model
  entries, the first of which is not the last entry: a placeholder stays after a response
  that cannot be read.
\<close>

theorem two_pending_turns:
  "conversation
     (prompt_step \<lparr>wifi_ssid = ''net'', wifi_pass = ''secret'', gemini_api_key = ''key''\<rparr>
        (\<lambda>n. True) (\<lambda>p. Returns \<lparr>status_code = 200, content = Json ''{}'' (JObj [])\<rparr>)
        (Some ''b'')
        (prompt_step \<lparr>wifi_ssid = ''net'', wifi_pass = ''secret'', gemini_api_key = ''key''\<rparr>
           (\<lambda>n. True) (\<lambda>p. Returns \<lparr>status_code = 200, content = Json ''{}'' (JObj [])\<rparr>)
           (Some ''a'')
           \<lparr>conversation = [], events = [], polls = 0, should_prompt_next = True\<rparr>)) =
     [\<lparr>role = User, part_text = ''a''\<rparr>, \<lparr>role = Model, part_text = []\<rparr>,
      \<lparr>role = User, part_text = ''b''\<rparr>, \<lparr>role = Model, part_text = []\<rparr>]"
  by (simp add: prompt_step_def call_gemini_api_def network_check_def payload_contents_def
      send_request_def parse_response_def process_response_def extract_text_def bindE_def
      emit_def Let_def bot_response_entry_def MAX_CONVERSATION_HISTORY_def SYSTEM_PROMPT_def)

lemma poll_keys_frame:
  "case poll_keys keys st of
     Exit st' \<Rightarrow> ''ESC'' \<in> set keys \<and> conversation st' = conversation st \<and>
                 events st' = events st \<and> polls st' = polls st
   | Continue st' \<Rightarrow> ''ESC'' \<notin> set keys \<and> conversation st' = conversation st \<and>
                 events st' = events st \<and> polls st' = polls st \<and>
                 (should_prompt_next st' \<longleftrightarrow> should_prompt_next st \<or> ''ENT'' \<in> set keys)"
proof (induction keys arbitrary: st)
  case Nil
  then show ?case by simp
next
  case (Cons k ks)
  show ?case
  proof (cases "k = ''ESC''")
    case True
    then show ?thesis by simp
  next
    case False
    show ?thesis
    proof (cases "k = ''ENT'' \<and> \<not> should_prompt_next st")
      case True
      then show ?thesis
        using Cons.IH [of "st\<lparr>should_prompt_next := True\<rparr>"] False
        by (auto split: outcome.splits)
    next
      case nt: False
      then show ?thesis
        using Cons.IH [of st] False
        by (auto split: outcome.splits)
    qed
  qed
qed

lemma call_gemini_api_events:
  "\<exists>evs. events (call_gemini_api cfg nic post st) = events st @ evs"
proof -
  obtain ok st1 where nc: "network_check cfg nic st = (ok, st1)"
    by (cases "network_check cfg nic st")
  from network_check_frame [OF nc] obtain evs1 where e1: "events st1 = events st @ evs1" by blast
  show ?thesis
  proof (cases ok)
    case True
    then have "network_check cfg nic st = (True, st1)" using nc by simp
    from call_gemini_api_posts [OF this] obtain evs where
      "events (call_gemini_api cfg nic post st) =
         events st1 @ Post (payload_contents (conversation st)) # evs" by blast
    then show ?thesis using e1 by simp
  next
    case False
    then have "call_gemini_api cfg nic post st = st1"
      using nc by (simp add: call_gemini_api_def)
    then show ?thesis using e1 by simp
  qed
qed

lemma prompt_step_opens_entry:
  assumes "should_prompt_next st"
  shows "\<exists>evs. events (prompt_step cfg nic post current_prompt st) = events st @ TextEntry # evs"
proof (cases current_prompt)
  case None
  then show ?thesis using assms by (simp add: prompt_step_def emit_def)
next
  case (Some p)
  show ?thesis
  proof (cases "p = []")
    case True
    then show ?thesis using assms Some by (simp add: prompt_step_def emit_def)
  next
    case False
    let ?st3 = "emit (Draw (conversation st @ [\<lparr>role = User, part_text = p\<rparr>]))
        (st\<lparr>events := events st @ [TextEntry], should_prompt_next := False,
            conversation := conversation st @ [\<lparr>role = User, part_text = p\<rparr>]\<rparr>)"
    have "prompt_step cfg nic post current_prompt st =
        (call_gemini_api cfg nic post ?st3)\<lparr>should_prompt_next := True\<rparr>"
      using assms Some False by (simp add: prompt_step_def emit_def Let_def)
    moreover obtain evs where "events (call_gemini_api cfg nic post ?st3) = events ?st3 @ evs"
      using call_gemini_api_events by blast
    ultimately show ?thesis by (simp add: emit_def)
  qed
qed

text \<open>
  Claim C10. If the prompt is open for this iteration and the user enters the empty
  string, the first part of the iteration leaves the conversation as it is and does
  nothing but open the text entry: no entry is appended, no request is posted, nothing is
  drawn. The iteration ends with \<open>SystemExit\<close> if ESC is among the keys read, and
  otherwise goes on with \<open>should_prompt_next\<close> set, so that the next iteration opens the
  text entry again, whatever is entered then.
\<close>

theorem empty_prompt_changes_nothing:
  assumes "should_prompt_next st"
  shows "conversation (prompt_step cfg nic post (Some []) st) = conversation st \<and>
     events (prompt_step cfg nic post (Some []) st) = events st @ [TextEntry] \<and>
     should_prompt_next (prompt_step cfg nic post (Some []) st) \<and>
     (case main_iteration cfg nic post (Some []) keys st of
        Exit st' \<Rightarrow> ''ESC'' \<in> set keys \<and> conversation st' = conversation st \<and>
                    events st' = events st @ [TextEntry]
      | Continue st' \<Rightarrow> ''ESC'' \<notin> set keys \<and> conversation st' = conversation st \<and>
                    events st' = events st @ [TextEntry] \<and> should_prompt_next st' \<and>
                    (\<forall>next_prompt. \<exists>evs.
                       events (prompt_step cfg nic post next_prompt st') =
                         events st' @ TextEntry # evs))"
proof -
  let ?s = "prompt_step cfg nic post (Some []) st"
  have s: "?s = st\<lparr>events := events st @ [TextEntry], should_prompt_next := True\<rparr>"
    using assms by (simp add: prompt_step_def emit_def)
  have 1: "conversation ?s = conversation st" "events ?s = events st @ [TextEntry]"
    "should_prompt_next ?s" by (simp_all add: s)
  have 2: "case main_iteration cfg nic post (Some []) keys st of
        Exit st' \<Rightarrow> ''ESC'' \<in> set keys \<and> conversation st' = conversation st \<and>
                    events st' = events st @ [TextEntry]
      | Continue st' \<Rightarrow> ''ESC'' \<notin> set keys \<and> conversation st' = conversation st \<and>
                    events st' = events st @ [TextEntry] \<and> should_prompt_next st' \<and>
                    (\<forall>next_prompt. \<exists>evs.
                       events (prompt_step cfg nic post next_prompt st') =
                         events st' @ TextEntry # evs)"
  proof (cases "poll_keys keys ?s")
    case (Exit st')
    then show ?thesis
      using poll_keys_frame [of keys ?s] 1 by (simp add: main_iteration_def)
  next
    case (Continue st')
    then have f: "''ESC'' \<notin> set keys" "conversation st' = conversation st"
      "events st' = events st @ [TextEntry]" "should_prompt_next st'"
      using poll_keys_frame [of keys ?s] 1 by simp_all
    have "\<forall>next_prompt. \<exists>evs. events (prompt_step cfg nic post next_prompt st') =
        events st' @ TextEntry # evs"
      using prompt_step_opens_entry [OF f(4)] by blast
    then show ?thesis using Continue f by (simp add: main_iteration_def)
  qed
  show ?thesis using 1 2 by blast
qed

theorem empty_prompt_changes_nothing_witness:
  "should_prompt_next \<lparr>conversation = [\<lparr>role = User, part_text = ''Hello''\<rparr>,
        \<lparr>role = Model, part_text = ''Hi there!''\<rparr>], events = [], polls = 2,
        should_prompt_next = True\<rparr> \<and>
   main_iteration \<lparr>wifi_ssid = ''net'', wifi_pass = ''secret'', gemini_api_key = ''key''\<rparr>
       (\<lambda>n. True) (\<lambda>p. Raises ''unreachable'') (Some []) [''a'']
       \<lparr>conversation = [\<lparr>role = User, part_text = ''Hello''\<rparr>,
        \<lparr>role = Model, part_text = ''Hi there!''\<rparr>], events = [], polls = 2,
        should_prompt_next = True\<rparr> =
     Continue \<lparr>conversation = [\<lparr>role = User, part_text = ''Hello''\<rparr>,
        \<lparr>role = Model, part_text = ''Hi there!''\<rparr>], events = [TextEntry], polls = 2,
        should_prompt_next = True\<rparr> \<and>
   conversation (prompt_step \<lparr>wifi_ssid = ''net'', wifi_pass = ''secret'', gemini_api_key = ''key''\<rparr>
       (\<lambda>n. True) (\<lambda>p. Raises ''unreachable'') (Some [])
       \<lparr>conversation = [\<lparr>role = User, part_text = ''Hello''\<rparr>,
        \<lparr>role = Model, part_text = ''Hi there!''\<rparr>], events = [], polls = 2,
        should_prompt_next = True\<rparr>) =
     [\<lparr>role = User, part_text = ''Hello''\<rparr>, \<lparr>role = Model, part_text = ''Hi there!''\<rparr>]"
proof -
  let ?st = "\<lparr>conversation = [\<lparr>role = User, part_text = ''Hello''\<rparr>,
        \<lparr>role = Model, part_text = ''Hi there!''\<rparr>], events = [], polls = 2,
        should_prompt_next = True\<rparr>"
  let ?cfg = "\<lparr>wifi_ssid = ''net'', wifi_pass = ''secret'', gemini_api_key = ''key''\<rparr>"
  have h: "should_prompt_next ?st" by simp
  have m: "main_iteration ?cfg (\<lambda>n. True) (\<lambda>p. Raises ''unreachable'') (Some []) [''a''] ?st =
     Continue (?st\<lparr>events := [TextEntry]\<rparr>)"
    by (simp add: main_iteration_def prompt_step_def emit_def)
  show ?thesis
    using empty_prompt_changes_nothing [OF h, of ?cfg "\<lambda>n. True" "\<lambda>p. Raises ''unreachable''" "[''a'']"] m
    by simp
qed

end
